theory Spec2Isabelle
  imports Main
begin

section \<open>The bootstrap command of osd-pm\<close>

text \<open>
  The development embeds \<^verbatim>\<open>BootstrapCommand.run\<close> of
  \<^verbatim>\<open>packages/osd-pm/src/commands/bootstrap.ts\<close>. The command installs the
  dependencies of every project, reads and validates the lock file, links executables,
  decides for every project whether its bootstrap cache is up to date, and then runs
  the build step of every project whose cache is not.

  The collaborators the command calls (the package manager, the lock file reader, the
  build invokers) are outside the file; their outcomes are inputs of the model, and
  every call made to them is recorded as an event. Calls to \<^verbatim>\<open>log\<close> are left
  out: they change nothing the command reads later.
\<close>

subsection \<open>Data\<close>

type_synonym pname = string
type_synonym fingerprint = string

text \<open>
  What the command reads of a \<^verbatim>\<open>Project\<close>: its name, the flag
  \<^verbatim>\<open>isWorkspaceProject\<close>, the answers of \<^verbatim>\<open>hasDependencies()\<close> and
  \<^verbatim>\<open>hasBuildTargets()\<close>, and the scripts that \<^verbatim>\<open>hasScript\<close> looks up.
\<close>

record project =
  name :: pname
  isWorkspaceProject :: bool
  hasDependencies :: bool
  scripts :: "string list"
  hasBuildTargets :: bool

definition hasScript :: "project \<Rightarrow> string \<Rightarrow> bool" where
  "hasScript p s = (s \<in> set (scripts p))"

text \<open>The options the command reads.\<close>

record options =
  cache :: bool
  frozen_lockfile :: bool
  prefer_offline :: bool
  single_version :: "string option"

text \<open>
  The behaviour of the collaborators during one run: whether each awaited call
  resolves or rejects, and the fingerprint that the checksums give each project.
\<close>

record env =
  install_ok :: "pname \<Rightarrow> bool"
  readYarnLock_ok :: bool
  validate_ok :: bool
  link_ok :: bool
  checksums_ok :: bool
  fresh :: "pname \<Rightarrow> fingerprint"
  build_ok :: "pname \<Rightarrow> bool"
  script_ok :: "pname \<Rightarrow> bool"

datatype error =
    CyclicDependencyError
  | InstallError pname
  | LockReadError
  | LockValidationError
  | LinkError
  | ChecksumError
  | BuildError pname

datatype event =
    InstallDependencies pname "string list"
  | ReadYarnLock
  | ValidateDependencies
  | LinkProjectExecutables
  | GetAllChecksums
  | CacheIsValid pname
  | CacheDelete pname
  | BuildForTargets pname bool
  | RunScriptStreaming pname string
  | CacheWrite pname fingerprint

subsection \<open>The bootstrap cache file\<close>

text \<open>The persisted cache records: at most one recorded fingerprint per project.\<close>

type_synonym store = "pname \<rightharpoonup> fingerprint"

record cache_file =
  cf_project :: pname
  cf_expected :: fingerprint

text \<open>
  The class \<^verbatim>\<open>BootstrapCacheFile\<close> (\<^verbatim>\<open>utils/bootstrap_cache_file\<close>) is not
  among the sources; its four operations follow the spec's CacheStore. The timestamp of
  a record plays no part in validity and is left out.
\<close>

text \<open>
  Modelled from the spec: the constructor of \<^verbatim>\<open>BootstrapCacheFile\<close>, which is
  missing. The cache file of a project holds the project's identity and the fingerprint
  freshly computed for it.
\<close>

definition new_BootstrapCacheFile :: "env \<Rightarrow> project \<Rightarrow> cache_file" where
  "new_BootstrapCacheFile e p = \<lparr>cf_project = name p, cf_expected = fresh e (name p)\<rparr>"

text \<open>
  Modelled from the spec: \<^verbatim>\<open>BootstrapCacheFile.isValid\<close>, which is missing. By the
  spec's validity rule a record must exist and its fingerprint must equal the fresh one;
  the third conjunct of the rule, that caching is enabled, is in the command itself.
\<close>

definition file_isValid :: "cache_file \<Rightarrow> store \<Rightarrow> bool" where
  "file_isValid f s = (case s (cf_project f) of None \<Rightarrow> False | Some r \<Rightarrow> r = cf_expected f)"

text \<open>
  Modelled from the spec: \<^verbatim>\<open>BootstrapCacheFile.delete\<close>, which is missing; the
  spec's \<^verbatim>\<open>invalidate\<close> deletes the record of the project.
\<close>

definition file_delete :: "cache_file \<Rightarrow> store \<Rightarrow> store" where
  "file_delete f s = s(cf_project f := None)"

text \<open>
  Modelled from the spec: \<^verbatim>\<open>BootstrapCacheFile.write\<close>, which is missing; the
  spec's \<^verbatim>\<open>commit\<close> records the fresh fingerprint for the project.
\<close>

definition file_write :: "cache_file \<Rightarrow> store \<Rightarrow> store" where
  "file_write f s = s(cf_project f \<mapsto> cf_expected f)"

subsection \<open>The cache decisions\<close>

record cache_entry =
  cfile :: cache_file
  valid :: bool

text \<open>
  The loop over \<^verbatim>\<open>projects.values()\<close> that fills the map \<^verbatim>\<open>caches\<close>.
  \<^verbatim>\<open>options.cache && file.isValid()\<close> reads the cache file only when caching is
  enabled, so the read is recorded only then.
\<close>

fun getCaches ::
  "options \<Rightarrow> env \<Rightarrow> store \<Rightarrow> project list \<Rightarrow> (project \<rightharpoonup> cache_entry) \<Rightarrow>
     (project \<rightharpoonup> cache_entry) \<times> event list" where
  "getCaches opts e s [] caches = (caches, [])"
| "getCaches opts e s (p # ps) caches =
     (if hasScript p ''osd:bootstrap'' \<or> hasBuildTargets p then
        (let f = new_BootstrapCacheFile e p;
             v = (cache opts \<and> file_isValid f s);
             (caches', evs) = getCaches opts e s ps (caches(p \<mapsto> \<lparr>cfile = f, valid = v\<rparr>))
         in (caches', (if cache opts then [CacheIsValid (name p)] else []) @ evs))
      else getCaches opts e s ps caches)"

subsection \<open>The unit of work of the build phase\<close>

text \<open>
  The function passed to \<^verbatim>\<open>parallelizeBatches\<close>. It returns the calls it made,
  the error it rejected with (if any) and the cache records it leaves. A rejected
  \<^verbatim>\<open>await\<close> ends the unit where it stands, so \<^verbatim>\<open>cache.file.write()\<close> is
  not reached.
\<close>

definition bootstrapUnit ::
  "env \<Rightarrow> (project \<rightharpoonup> cache_entry) \<Rightarrow> project \<Rightarrow> store \<Rightarrow>
     (event list \<times> error option) \<times> store" where
  "bootstrapUnit e caches p s =
     (case caches p of
        None \<Rightarrow> (([], None), s)
      | Some c \<Rightarrow>
          if valid c then (([], None), s)
          else if hasBuildTargets p then
            (let s1 = file_delete (cfile c) s in
             if build_ok e (name p) then
               (([CacheDelete (cf_project (cfile c)), BuildForTargets (name p) True,
                  CacheWrite (cf_project (cfile c)) (cf_expected (cfile c))], None),
                file_write (cfile c) s1)
             else
               (([CacheDelete (cf_project (cfile c)), BuildForTargets (name p) True],
                 Some (BuildError (name p))), s1))
          else
            (let s1 = file_delete (cfile c) s in
             if script_ok e (name p) then
               (([CacheDelete (cf_project (cfile c)), RunScriptStreaming (name p) ''osd:bootstrap'',
                  CacheWrite (cf_project (cfile c)) (cf_expected (cfile c))], None),
                file_write (cfile c) s1)
             else
               (([CacheDelete (cf_project (cfile c)), RunScriptStreaming (name p) ''osd:bootstrap''],
                 Some (BuildError (name p))), s1)))"

subsection \<open>The install phase\<close>

definition extraArgs :: "options \<Rightarrow> string list" where
  "extraArgs opts =
     (if frozen_lockfile opts then [''--frozen-lockfile''] else []) @
     (if prefer_offline opts then [''--prefer-offline''] else [])"

text \<open>
  The two nested loops over \<^verbatim>\<open>batchedProjectsByWorkspace\<close>. Each
  \<^verbatim>\<open>installDependencies\<close> is awaited before the loop goes on; a rejected one
  ends the command.
\<close>

fun installBatch :: "env \<Rightarrow> string list \<Rightarrow> project list \<Rightarrow> event list \<times> error option" where
  "installBatch e args [] = ([], None)"
| "installBatch e args (p # ps) =
     (if isWorkspaceProject p then installBatch e args ps
      else if hasDependencies p then
        (if install_ok e (name p) then
           (let (evs, r) = installBatch e args ps
            in (InstallDependencies (name p) args # evs, r))
         else ([InstallDependencies (name p) args], Some (InstallError (name p))))
      else installBatch e args ps)"

fun installBatches ::
  "env \<Rightarrow> string list \<Rightarrow> project list list \<Rightarrow> event list \<times> error option" where
  "installBatches e args [] = ([], None)"
| "installBatches e args (b # bs) =
     (case installBatch e args b of
        (evs, Some err) \<Rightarrow> (evs, Some err)
      | (evs, None) \<Rightarrow> (let (evs', r) = installBatches e args bs in (evs @ evs', r)))"

subsection \<open>Topological batching\<close>

text \<open>
  The function \<^verbatim>\<open>topologicallyBatchProjects\<close> (\<^verbatim>\<open>utils/projects\<close>) is not
  among the sources; it follows the spec's DependencyGraph. The project graph gives, for
  a project's name, the names of the projects it depends on.
\<close>

text \<open>
  Modelled from the spec: when a dependency of a project is unresolved, which the missing
  \<^verbatim>\<open>topologicallyBatchProjects\<close> decides. A project waits for those of its
  dependencies that are still to be batched. With the scoping option set
  (\<^verbatim>\<open>batchByWorkspace\<close> in the command), the edges into and out of workspace
  projects count as always satisfied and gate nothing.
\<close>

definition unresolved ::
  "(pname \<Rightarrow> pname list) \<Rightarrow> bool \<Rightarrow> project list \<Rightarrow> project \<Rightarrow> bool" where
  "unresolved g scoped left p =
     (\<exists>d \<in> set left. name d \<in> set (g (name p)) \<and>
        (scoped \<longrightarrow> \<not> isWorkspaceProject p \<and> \<not> isWorkspaceProject d))"

text \<open>
  Modelled from the spec: the repeated layering of the missing
  \<^verbatim>\<open>topologicallyBatchProjects\<close>. A batch is made of all the projects still to be
  batched that have no unresolved dependency, in the order of the input; they are
  removed and the layering repeats until no project remains. When no project is ready
  the graph has a cycle and batching fails with \<^verbatim>\<open>CyclicDependencyError\<close> (the
  cycle that the error names is not modelled).
\<close>

function batchLayers ::
  "(pname \<Rightarrow> pname list) \<Rightarrow> bool \<Rightarrow> project list \<Rightarrow> error + project list list" where
  "batchLayers g scoped left =
     (if left = [] then Inr []
      else if filter (\<lambda>p. \<not> unresolved g scoped left p) left = [] then
        Inl CyclicDependencyError
      else
        (case batchLayers g scoped (filter (unresolved g scoped left) left) of
           Inl err \<Rightarrow> Inl err
         | Inr bs \<Rightarrow> Inr (filter (\<lambda>p. \<not> unresolved g scoped left p) left # bs)))"
  by pat_completeness auto
termination
proof (relation "measure (\<lambda>(g, scoped, left). length left)")
  show "wf (measure (\<lambda>(g, scoped, left). length left))"
    by simp
next
  fix g :: "pname \<Rightarrow> pname list" and scoped :: bool and left :: "project list"
  assume "filter (\<lambda>p. \<not> unresolved g scoped left p) left \<noteq> []"
  then obtain p where "p \<in> set left" and "\<not> unresolved g scoped left p"
    by (auto simp: filter_empty_conv)
  then have "length (filter (unresolved g scoped left) left) < length left"
    by (rule length_filter_less)
  then show "((g, scoped, filter (unresolved g scoped left) left), (g, scoped, left))
      \<in> measure (\<lambda>(g, scoped, left). length left)"
    by simp
qed

declare batchLayers.simps [simp del]

text \<open>
  Modelled from the spec: \<^verbatim>\<open>topologicallyBatchProjects\<close>, which is missing, with
  the arguments the command gives it: the projects, the project graph and the option
  \<^verbatim>\<open>batchByWorkspace\<close>.
\<close>

definition topologicallyBatchProjects ::
  "project list \<Rightarrow> (pname \<Rightarrow> pname list) \<Rightarrow> bool \<Rightarrow> error + project list list" where
  "topologicallyBatchProjects projects projectGraph batchByWorkspace =
     batchLayers projectGraph batchByWorkspace projects"

subsection \<open>The batch scheduler\<close>

text \<open>
  The function \<^verbatim>\<open>parallelizeBatches\<close> (\<^verbatim>\<open>utils/parallelize\<close>) is not among
  the sources; it follows the spec's BatchScheduler.

  The units of one batch run concurrently. The model keeps, for each unit, its item, the
  calls it made in its own order and the error it ended with, and it puts no order
  between the calls of two units of the same batch.
\<close>

type_synonym 'a unit_run = "'a \<times> event list \<times> error option"

text \<open>
  Modelled from the spec: one batch of the missing \<^verbatim>\<open>parallelizeBatches\<close>. Every
  unit of the batch is started (the command sets no concurrency limit) and runs to its
  end, whether or not a sibling fails. The state is handed from unit to unit in the
  order of the batch.
\<close>

fun parallelize ::
  "'a list \<Rightarrow> ('a \<Rightarrow> 's \<Rightarrow> (event list \<times> error option) \<times> 's) \<Rightarrow> 's \<Rightarrow>
     'a unit_run list \<times> 's" where
  "parallelize [] fn s = ([], s)"
| "parallelize (x # xs) fn s =
     (let (r, s1) = fn x s;
          (us, s2) = parallelize xs fn s1
      in ((x, r) # us, s2))"

text \<open>
  Modelled from the spec: the failures of a settled batch, which the missing
  \<^verbatim>\<open>parallelizeBatches\<close> propagates: the first failure, or all of them when
  there are several, in the order of the batch.
\<close>

definition failures :: "'a unit_run list \<Rightarrow> error list" where
  "failures us = List.map_filter (\<lambda>u. snd (snd u)) us"

text \<open>
  Modelled from the spec: \<^verbatim>\<open>parallelizeBatches\<close>, which is missing. The batches run
  one after another; when a batch has settled with a failure, no later batch is started
  and the failures of that batch go to the caller.
\<close>

fun parallelizeBatches ::
  "'a list list \<Rightarrow> ('a \<Rightarrow> 's \<Rightarrow> (event list \<times> error option) \<times> 's) \<Rightarrow> 's \<Rightarrow>
     'a unit_run list list \<times> error list \<times> 's" where
  "parallelizeBatches [] fn s = ([], [], s)"
| "parallelizeBatches (b # bs) fn s =
     (let (us, s1) = parallelize b fn s in
      if failures us = [] then
        (let (rs, fs, s2) = parallelizeBatches bs fn s1 in (us # rs, fs, s2))
      else ([us], failures us, s1))"

subsection \<open>The command\<close>

text \<open>
  A run leaves a trace of steps in the order in which the command awaited them: a call
  to a collaborator, or a batch of the build phase with the units that ran in it.
\<close>

datatype step = Call event | Batch "project unit_run list"

datatype outcome = Done | Failed "error list"

record result =
  trace :: "step list"
  records :: store
  outcome :: outcome

definition run ::
  "project list \<Rightarrow> (pname \<Rightarrow> pname list) \<Rightarrow> options \<Rightarrow> env \<Rightarrow> store \<Rightarrow> result" where
  "run projects projectGraph opts e s =
     (case topologicallyBatchProjects projects projectGraph True of
        Inl err \<Rightarrow> \<lparr>trace = [], records = s, outcome = Failed [err]\<rparr>
      | Inr batchedProjectsByWorkspace \<Rightarrow>
     (case topologicallyBatchProjects projects projectGraph False of
        Inl err \<Rightarrow> \<lparr>trace = [], records = s, outcome = Failed [err]\<rparr>
      | Inr batchedProjects \<Rightarrow>
     (case installBatches e (extraArgs opts) batchedProjectsByWorkspace of
        (ievs, Some err) \<Rightarrow>
          \<lparr>trace = map Call ievs, records = s, outcome = Failed [err]\<rparr>
      | (ievs, None) \<Rightarrow>
          if \<not> readYarnLock_ok e then
            \<lparr>trace = map Call (ievs @ [ReadYarnLock]), records = s,
             outcome = Failed [LockReadError]\<rparr>
          else if \<not> validate_ok e then
            \<lparr>trace = map Call (ievs @ [ReadYarnLock, ValidateDependencies]), records = s,
             outcome = Failed [LockValidationError]\<rparr>
          else if \<not> link_ok e then
            \<lparr>trace = map Call (ievs @ [ReadYarnLock, ValidateDependencies,
               LinkProjectExecutables]), records = s,
             outcome = Failed [LinkError]\<rparr>
          else if \<not> checksums_ok e then
            \<lparr>trace = map Call (ievs @ [ReadYarnLock, ValidateDependencies,
               LinkProjectExecutables, GetAllChecksums]), records = s,
             outcome = Failed [ChecksumError]\<rparr>
          else
            (let (caches, cevs) = getCaches opts e s projects Map.empty;
                 (rs, fs, s') = parallelizeBatches batchedProjects (bootstrapUnit e caches) s
             in \<lparr>trace = map Call (ievs @ [ReadYarnLock, ValidateDependencies,
                    LinkProjectExecutables, GetAllChecksums] @ cevs) @ map Batch rs,
                  records = s',
                  outcome = (if fs = [] then Done else Failed fs)\<rparr>))))"

text \<open>The map \<^verbatim>\<open>caches\<close> as the loop over the projects leaves it.\<close>

definition decisions ::
  "options \<Rightarrow> env \<Rightarrow> store \<Rightarrow> project list \<Rightarrow> (project \<rightharpoonup> cache_entry)" where
  "decisions opts e s projects = fst (getCaches opts e s projects Map.empty)"

subsection \<open>The project graph\<close>

text \<open>
  The edges of the project graph among the given projects, from a dependent project to
  a project it depends on. The graph is acyclic when this relation is.
\<close>

definition edges :: "project list \<Rightarrow> (pname \<Rightarrow> pname list) \<Rightarrow> (project \<times> project) set" where
  "edges ps g = {(p, d). p \<in> set ps \<and> d \<in> set ps \<and> name d \<in> set (g (name p))}"

subsection \<open>A small workspace\<close>

text \<open>
  Three projects used to run the definitions on: \<open>core\<close> declares build targets and a
  bootstrap script, \<open>plugin\<close> depends on \<open>core\<close> and on the workspace project and
  declares only a script, \<open>ws\<close> is a workspace project, \<open>docs\<close> declares neither.
\<close>

definition ex_core :: project where
  "ex_core = \<lparr>name = ''core'', isWorkspaceProject = False, hasDependencies = True,
     scripts = [''osd:bootstrap''], hasBuildTargets = True\<rparr>"

definition ex_plugin :: project where
  "ex_plugin = \<lparr>name = ''plugin'', isWorkspaceProject = False, hasDependencies = True,
     scripts = [''osd:bootstrap''], hasBuildTargets = False\<rparr>"

definition ex_ws :: project where
  "ex_ws = \<lparr>name = ''ws'', isWorkspaceProject = True, hasDependencies = True,
     scripts = [], hasBuildTargets = True\<rparr>"

definition ex_docs :: project where
  "ex_docs = \<lparr>name = ''docs'', isWorkspaceProject = False, hasDependencies = False,
     scripts = [''lint''], hasBuildTargets = False\<rparr>"

definition ex_graph :: "pname \<Rightarrow> pname list" where
  "ex_graph n = (if n = ''plugin'' then [''core'', ''ws''] else [])"

definition ex_env :: env where
  "ex_env = \<lparr>install_ok = (\<lambda>n. True), readYarnLock_ok = True, validate_ok = True,
     link_ok = True, checksums_ok = True, fresh = (\<lambda>n. n @ ''#1''),
     build_ok = (\<lambda>n. True), script_ok = (\<lambda>n. True)\<rparr>"

definition ex_opts :: options where
  "ex_opts = \<lparr>cache = True, frozen_lockfile = True, prefer_offline = False,
     single_version = None\<rparr>"

text \<open>The same collaborators, except that every build of build targets fails.\<close>

definition ex_env_failing :: env where
  "ex_env_failing = ex_env\<lparr>build_ok := (\<lambda>n. False)\<rparr>"

text \<open>The same options, with caching disabled.\<close>

definition ex_opts_nocache :: options where
  "ex_opts_nocache = ex_opts\<lparr>cache := False\<rparr>"

text \<open>The same collaborators, except that the validation of the lock file fails.\<close>

definition ex_env_bad_lock :: env where
  "ex_env_bad_lock = ex_env\<lparr>validate_ok := False\<rparr>"

text \<open>The same collaborators, except that the computation of the checksums fails.\<close>

definition ex_env_bad_checksums :: env where
  "ex_env_bad_checksums = ex_env\<lparr>checksums_ok := False\<rparr>"

text \<open>Cache records that hold the fresh fingerprint of both projects.\<close>

definition ex_records :: store where
  "ex_records = [''core'' \<mapsto> ''core#1'', ''plugin'' \<mapsto> ''plugin#1'']"

section \<open>Properties\<close>

subsection \<open>Cache decisions and the unit of work\<close>

lemma getCaches_lookup:
  "fst (getCaches opts e s ps caches) p =
     (if p \<in> set ps \<and> (hasScript p ''osd:bootstrap'' \<or> hasBuildTargets p) then
        Some \<lparr>cfile = new_BootstrapCacheFile e p,
              valid = (cache opts \<and> file_isValid (new_BootstrapCacheFile e p) s)\<rparr>
      else caches p)"
  by (induction ps arbitrary: caches) (simp_all add: Let_def case_prod_beta)

lemma decisions_lookup:
  "decisions opts e s ps p =
     (if p \<in> set ps \<and> (hasScript p ''osd:bootstrap'' \<or> hasBuildTargets p) then
        Some \<lparr>cfile = new_BootstrapCacheFile e p,
              valid = (cache opts \<and> file_isValid (new_BootstrapCacheFile e p) s)\<rparr>
      else None)"
  by (simp add: decisions_def getCaches_lookup)

lemma file_isValid_new:
  "file_isValid (new_BootstrapCacheFile e p) s = (s (name p) = Some (fresh e (name p)))"
  by (simp add: file_isValid_def new_BootstrapCacheFile_def split: option.splits)

text \<open>
  C2. A project that declares an \<^verbatim>\<open>osd:bootstrap\<close> script or build targets gets
  a cache decision, and the decision is valid exactly when caching is enabled, a cache
  record exists for the project and the recorded fingerprint equals the fresh one. A
  project that declares neither gets no decision.
\<close>

theorem cache_decision_valid_iff:
  assumes "p \<in> set projects"
  shows "(hasScript p ''osd:bootstrap'' \<or> hasBuildTargets p \<longrightarrow>
           (\<exists>c. decisions opts e s projects p = Some c \<and>
                (valid c \<longleftrightarrow>
                   cache opts \<and> (\<exists>r. s (name p) = Some r \<and> r = fresh e (name p)))))
       \<and> (\<not> hasScript p ''osd:bootstrap'' \<and> \<not> hasBuildTargets p \<longrightarrow>
            decisions opts e s projects p = None)"
  using assms by (simp add: decisions_lookup file_isValid_new)

theorem cache_decision_valid_iff_witness:
  "ex_core \<in> set [ex_core, ex_docs] \<and>
   (hasScript ex_core ''osd:bootstrap'' \<or> hasBuildTargets ex_core) \<and>
   (\<exists>c. decisions ex_opts ex_env [''core'' \<mapsto> ''core#1''] [ex_core, ex_docs] ex_core = Some c \<and>
        valid c) \<and>
   ex_docs \<in> set [ex_core, ex_docs] \<and>
   \<not> hasScript ex_docs ''osd:bootstrap'' \<and> \<not> hasBuildTargets ex_docs \<and>
   decisions ex_opts ex_env [''core'' \<mapsto> ''core#1''] [ex_core, ex_docs] ex_docs = None"
proof -
  have m1: "ex_core \<in> set [ex_core, ex_docs]" and m2: "ex_docs \<in> set [ex_core, ex_docs]"
    by simp_all
  have h1: "hasScript ex_core ''osd:bootstrap'' \<or> hasBuildTargets ex_core"
    by (simp add: ex_core_def)
  have h2: "\<not> hasScript ex_docs ''osd:bootstrap'' \<and> \<not> hasBuildTargets ex_docs"
    by (simp add: ex_docs_def hasScript_def)
  have v: "cache ex_opts \<and>
      (\<exists>r. [''core'' \<mapsto> ''core#1''] (name ex_core) = Some r \<and> r = fresh ex_env (name ex_core))"
    by (simp add: ex_opts_def ex_core_def ex_env_def)
  from cache_decision_valid_iff [OF m1, of ex_opts ex_env "[''core'' \<mapsto> ''core#1'']"] h1 v
  have "\<exists>c. decisions ex_opts ex_env [''core'' \<mapsto> ''core#1''] [ex_core, ex_docs] ex_core = Some c
      \<and> valid c"
    by blast
  moreover
  from cache_decision_valid_iff [OF m2, of ex_opts ex_env "[''core'' \<mapsto> ''core#1'']"] h2
  have "decisions ex_opts ex_env [''core'' \<mapsto> ''core#1''] [ex_core, ex_docs] ex_docs = None"
    by blast
  ultimately show ?thesis
    using m1 m2 h1 h2 by blast
qed

subsection \<open>Topological batching\<close>





lemma batchLayers_Inr_cases:
  assumes "batchLayers g scoped left = Inr bs"
  obtains (empty) "left = []" and "bs = []"
  | (layer) bs' where "left \<noteq> []"
      and "filter (\<lambda>p. \<not> unresolved g scoped left p) left \<noteq> []"
      and "batchLayers g scoped (filter (unresolved g scoped left) left) = Inr bs'"
      and "bs = filter (\<lambda>p. \<not> unresolved g scoped left p) left # bs'"
  using assms
  by (subst (asm) batchLayers.simps) (auto split: if_splits sum.splits)

lemma batchLayers_set:
  "batchLayers g scoped left = Inr bs \<Longrightarrow> set (concat bs) = set left"
proof (induction g scoped left arbitrary: bs rule: batchLayers.induct)
  case (1 g scoped left)
  from "1.prems" show ?case
  proof (cases rule: batchLayers_Inr_cases)
    case empty
    then show ?thesis by simp
  next
    case (layer bs')
    with "1.IH" have "set (concat bs') = set (filter (unresolved g scoped left) left)"
      by blast
    with layer show ?thesis
      by auto
  qed
qed

lemma batchLayers_distinct:
  "batchLayers g scoped left = Inr bs \<Longrightarrow> distinct left \<Longrightarrow> distinct (concat bs)"
proof (induction g scoped left arbitrary: bs rule: batchLayers.induct)
  case (1 g scoped left)
  from "1.prems"(1) show ?case
  proof (cases rule: batchLayers_Inr_cases)
    case empty
    then show ?thesis by simp
  next
    case (layer bs')
    from "1.prems"(2) have "distinct (filter (unresolved g scoped left) left)"
      by simp
    with "1.IH" layer have "distinct (concat bs')"
      by blast
    moreover have "set (concat bs') = set (filter (unresolved g scoped left) left)"
      using layer(3) by (rule batchLayers_set)
    ultimately show ?thesis
      using layer(4) "1.prems"(2) by auto
  qed
qed

lemma batchLayers_order:
  "batchLayers g scoped left = Inr bs \<Longrightarrow> p \<in> set left \<Longrightarrow> d \<in> set left \<Longrightarrow>
   name d \<in> set (g (name p)) \<Longrightarrow>
   (scoped \<longrightarrow> \<not> isWorkspaceProject p \<and> \<not> isWorkspaceProject d) \<Longrightarrow>
   \<exists>i j. j < i \<and> i < length bs \<and> p \<in> set (bs ! i) \<and> d \<in> set (bs ! j)"
proof (induction g scoped left arbitrary: bs rule: batchLayers.induct)
  case (1 g scoped left)
  from "1.prems"(1) show ?case
  proof (cases rule: batchLayers_Inr_cases)
    case empty
    with "1.prems"(2) show ?thesis by simp
  next
    case (layer bs')
    let ?rest = "filter (unresolved g scoped left) left"
    have rest: "set (concat bs') = set ?rest"
      using layer(3) by (rule batchLayers_set)
    from "1.prems" have "unresolved g scoped left p"
      by (auto simp: unresolved_def)
    with "1.prems"(2) have p: "p \<in> set ?rest"
      by simp
    show ?thesis
    proof (cases "unresolved g scoped left d")
      case True
      with "1.prems"(3) have "d \<in> set ?rest"
        by simp
      with "1.IH" [OF layer(1) layer(2) layer(3) p _ "1.prems"(4) "1.prems"(5)]
      obtain i j where "j < i" "i < length bs'" "p \<in> set (bs' ! i)" "d \<in> set (bs' ! j)"
        by blast
      with layer(4) have "Suc j < Suc i \<and> Suc i < length bs \<and> p \<in> set (bs ! Suc i)
          \<and> d \<in> set (bs ! Suc j)"
        by simp
      then show ?thesis
        by blast
    next
      case False
      with "1.prems"(3) layer(4) have d0: "d \<in> set (bs ! 0)"
        by simp
      from p rest obtain b where "b \<in> set bs'" and "p \<in> set b"
        by auto
      then obtain i where "i < length bs'" and "p \<in> set (bs' ! i)"
        by (auto simp: in_set_conv_nth)
      with layer(4) d0 have "0 < Suc i \<and> Suc i < length bs \<and> p \<in> set (bs ! Suc i)
          \<and> d \<in> set (bs ! 0)"
        by simp
      then show ?thesis
        by blast
    qed
  qed
qed



lemma batchLayers_Nil: "batchLayers g scoped [] = Inr []"
  by (subst batchLayers.simps) simp

lemma ex_projects_distinct:
  "ex_core \<noteq> ex_plugin" "ex_core \<noteq> ex_ws" "ex_plugin \<noteq> ex_ws"
  "ex_docs \<noteq> ex_core" "ex_docs \<noteq> ex_plugin" "ex_docs \<noteq> ex_ws"
  by (simp_all add: ex_core_def ex_plugin_def ex_ws_def ex_docs_def)



text \<open>
  How the scoping option treats the edges at a workspace project is modelled after the
  words "always satisfied": in the model a workspace project and a project that depends
  on it can be put in the same batch. The theorem above says nothing of these edges.
\<close>

lemma scoped_batching_same_batch:
  "topologicallyBatchProjects [ex_ws, ex_plugin] ex_graph True = Inr [ [ex_ws, ex_plugin] ]"
proof -
  have u: "\<not> unresolved ex_graph True [ex_ws, ex_plugin] ex_ws"
    "\<not> unresolved ex_graph True [ex_ws, ex_plugin] ex_plugin"
    by (simp_all add: unresolved_def ex_graph_def ex_ws_def ex_plugin_def)
  have "batchLayers ex_graph True [ex_ws, ex_plugin] = Inr [ [ex_ws, ex_plugin] ]"
    by (subst batchLayers.simps) (simp add: u batchLayers_Nil)
  then show ?thesis
    by (simp add: topologicallyBatchProjects_def)
qed

subsection \<open>The scheduler\<close>

lemma parallelize_items: "map fst (fst (parallelize xs fn s)) = xs"
  by (induction xs arbitrary: s) (simp_all add: case_prod_beta)

lemma parallelize_append:
  "parallelize (xs @ ys) fn s =
     (fst (parallelize xs fn s) @ fst (parallelize ys fn (snd (parallelize xs fn s))),
      snd (parallelize ys fn (snd (parallelize xs fn s))))"
  by (induction xs arbitrary: s) (simp_all add: case_prod_beta)

lemma parallelize_unit:
  "u \<in> set (fst (parallelize xs fn s)) \<Longrightarrow> \<exists>st. snd u = fst (fn (fst u) st)"
  by (induction xs arbitrary: s) (auto simp: case_prod_beta)

lemma failures_empty_iff: "failures us = [] \<longleftrightarrow> (\<forall>u \<in> set us. snd (snd u) = None)"
  by (induction us) (auto simp: failures_def List.map_filter_simps split: option.splits)

lemma failures_mem: "err \<in> set (failures us) \<longleftrightarrow> (\<exists>u \<in> set us. snd (snd u) = Some err)"
  by (induction us) (auto simp: failures_def List.map_filter_simps split: option.splits)

lemma parallelizeBatches_shape:
  "parallelizeBatches bs fn s = (rs, fs, s') \<Longrightarrow>
     map (map fst) rs = take (length rs) bs \<and>
     s' = snd (parallelize (concat (take (length rs) bs)) fn s) \<and>
     (\<forall>us \<in> set rs. \<forall>u \<in> set us. \<exists>st. snd u = fst (fn (fst u) st)) \<and>
     (\<forall>us \<in> set (butlast rs). failures us = []) \<and>
     (fs = [] \<longrightarrow> length rs = length bs \<and> (\<forall>us \<in> set rs. failures us = [])) \<and>
     (fs \<noteq> [] \<longrightarrow> rs \<noteq> [] \<and> fs = failures (last rs))"
proof (induction bs arbitrary: s rs fs s')
  case Nil
  then show ?case by simp
next
  case (Cons b bs)
  obtain us s1 where b: "parallelize b fn s = (us, s1)"
    by (cases "parallelize b fn s")
  have items: "map fst us = b"
    using parallelize_items [of b fn s] b by simp
  have units: "\<forall>u \<in> set us. \<exists>st. snd u = fst (fn (fst u) st)"
    using parallelize_unit [of _ b fn s] b by simp
  show ?case
  proof (cases "failures us = []")
    case True
    obtain rs' fs' s2 where rest: "parallelizeBatches bs fn s1 = (rs', fs', s2)"
      by (cases "parallelizeBatches bs fn s1")
    with Cons.prems b True have eq: "rs = us # rs'" "fs = fs'" "s' = s2"
      by simp_all
    note ih = Cons.IH [OF rest]
    have "s' = snd (parallelize (concat (take (length rs) (b # bs))) fn s)"
      using ih b eq by (simp add: parallelize_append)
    moreover have "\<forall>us \<in> set (butlast rs). failures us = []"
      using ih True eq by (cases rs') auto
    moreover have "fs \<noteq> [] \<longrightarrow> rs \<noteq> [] \<and> fs = failures (last rs)"
      using ih eq by auto
    ultimately show ?thesis
      using ih items units True eq by auto
  next
    case False
    with Cons.prems b have eq: "rs = [us]" "fs = failures us" "s' = s1"
      by simp_all
    with items units False b show ?thesis
      by simp
  qed
qed


subsection \<open>The unit of work under the decisions of the command\<close>

lemma unit_skip:
  "caches p = None \<or> (\<exists>c. caches p = Some c \<and> valid c) \<Longrightarrow>
     bootstrapUnit e caches p s = (([], None), s)"
  by (auto simp: bootstrapUnit_def)

lemma unit_stale_decided:
  assumes "decisions opts e s0 projects p = Some c" and "\<not> valid c"
  shows "bootstrapUnit e (decisions opts e s0 projects) p s =
     (if hasBuildTargets p then
        (if build_ok e (name p) then
           (([CacheDelete (name p), BuildForTargets (name p) True,
              CacheWrite (name p) (fresh e (name p))], None),
            s(name p \<mapsto> fresh e (name p)))
         else
           (([CacheDelete (name p), BuildForTargets (name p) True],
             Some (BuildError (name p))), s(name p := None)))
      else
        (if script_ok e (name p) then
           (([CacheDelete (name p), RunScriptStreaming (name p) ''osd:bootstrap'',
              CacheWrite (name p) (fresh e (name p))], None),
            s(name p \<mapsto> fresh e (name p)))
         else
           (([CacheDelete (name p), RunScriptStreaming (name p) ''osd:bootstrap''],
             Some (BuildError (name p))), s(name p := None))))"
proof -
  from assms(1) have c: "c = \<lparr>cfile = new_BootstrapCacheFile e p,
      valid = (cache opts \<and> file_isValid (new_BootstrapCacheFile e p) s0)\<rparr>"
    by (simp add: decisions_lookup split: if_splits)
  have f: "cf_project (cfile c) = name p" "cf_expected (cfile c) = fresh e (name p)"
    by (simp_all add: c new_BootstrapCacheFile_def)
  show ?thesis
    using assms f by (simp add: bootstrapUnit_def file_delete_def file_write_def)
qed

text \<open>What a unit does is one of three things, whatever the records are when it runs.\<close>

lemma unit_decided_cases:
  fixes opts e s0 projects p
  defines "D \<equiv> decisions opts e s0 projects"
  obtains (skip) "D p = None \<or> (\<exists>c. D p = Some c \<and> valid c)"
      and "\<And>s. bootstrapUnit e D p s = (([], None), s)"
  | (built) evs c where "D p = Some c" and "\<not> valid c"
      and "\<And>s. bootstrapUnit e D p s = ((evs, None), s(name p \<mapsto> fresh e (name p)))"
  | (failed) evs c where "D p = Some c" and "\<not> valid c"
      and "\<And>s. bootstrapUnit e D p s =
             ((evs, Some (BuildError (name p))), s(name p := None))"
proof (cases "D p = None \<or> (\<exists>c. D p = Some c \<and> valid c)")
  case True
  then show ?thesis
    using skip unit_skip [of D p e] by blast
next
  case False
  then obtain c where c: "D p = Some c" "\<not> valid c"
    by auto
  note u = unit_stale_decided [OF c [unfolded D_def], folded D_def]
  show ?thesis
  proof (cases "if hasBuildTargets p then build_ok e (name p) else script_ok e (name p)")
    case True
    with u have "\<And>s. bootstrapUnit e D p s =
        ((fst (fst (bootstrapUnit e D p Map.empty)), None), s(name p \<mapsto> fresh e (name p)))"
      by (simp split: if_splits)
    with c show ?thesis
      using built by blast
  next
    case False
    with u have "\<And>s. bootstrapUnit e D p s =
        ((fst (fst (bootstrapUnit e D p Map.empty)), Some (BuildError (name p))),
         s(name p := None))"
      by (simp split: if_splits)
    with c show ?thesis
      using failed by blast
  qed
qed

lemma unit_frame:
  "n \<noteq> name p \<Longrightarrow> snd (bootstrapUnit e (decisions opts e s0 projects) p s) n = s n"
  by (cases opts e s0 projects p rule: unit_decided_cases) simp_all

lemma unit_result_indep:
  "fst (bootstrapUnit e (decisions opts e s0 projects) p s) =
   fst (bootstrapUnit e (decisions opts e s0 projects) p t)"
  by (cases opts e s0 projects p rule: unit_decided_cases) simp_all

lemma unit_own_record:
  "s (name p) = t (name p) \<Longrightarrow>
   snd (bootstrapUnit e (decisions opts e s0 projects) p s) (name p) =
   snd (bootstrapUnit e (decisions opts e s0 projects) p t) (name p)"
  by (cases opts e s0 projects p rule: unit_decided_cases) simp_all

lemma parallelize_frame:
  "n \<notin> name ` set xs \<Longrightarrow>
   snd (parallelize xs (bootstrapUnit e (decisions opts e s0 projects)) s) n = s n"
  by (induction xs arbitrary: s) (simp_all add: case_prod_beta unit_frame)

lemma parallelize_own_record:
  "distinct (map name xs) \<Longrightarrow> p \<in> set xs \<Longrightarrow>
   snd (parallelize xs (bootstrapUnit e (decisions opts e s0 projects)) s) (name p) =
   snd (bootstrapUnit e (decisions opts e s0 projects) p s) (name p)"
proof (induction xs arbitrary: s)
  case Nil
  then show ?case by simp
next
  case (Cons x xs)
  let ?U = "bootstrapUnit e (decisions opts e s0 projects)"
  show ?case
  proof (cases "p = x")
    case True
    with Cons.prems have "name p \<notin> name ` set xs"
      by auto
    with True show ?thesis
      by (simp add: case_prod_beta parallelize_frame)
  next
    case False
    with Cons.prems have p: "p \<in> set xs" and "name x \<noteq> name p"
      by auto
    then have "snd (?U x s) (name p) = s (name p)"
      by (simp add: unit_frame)
    then have "snd (?U p (snd (?U x s))) (name p) = snd (?U p s) (name p)"
      by (rule unit_own_record)
    with Cons.IH [OF _ p, of "snd (?U x s)"] Cons.prems(1) show ?thesis
      by (simp add: case_prod_beta)
  qed
qed


text \<open>
  The records that the units of a batch leave do not depend on the order in which the
  units are taken, and neither do the calls a unit makes: each unit reads the decisions
  only and writes the record of its own project only.
\<close>

lemma parallelize_order_irrelevant:
  assumes "distinct (map name xs)" and "distinct (map name ys)" and "set xs = set ys"
  shows "snd (parallelize xs (bootstrapUnit e (decisions opts e s0 projects)) s) =
         snd (parallelize ys (bootstrapUnit e (decisions opts e s0 projects)) s)"
proof
  fix n
  let ?U = "bootstrapUnit e (decisions opts e s0 projects)"
  show "snd (parallelize xs ?U s) n = snd (parallelize ys ?U s) n"
  proof (cases "n \<in> name ` set xs")
    case True
    then obtain p where p: "p \<in> set xs" "n = name p"
      by (elim imageE) simp
    with assms(3) have "p \<in> set ys"
      by simp
    with assms(1,2) p show ?thesis
      by (simp add: parallelize_own_record)
  next
    case False
    with assms(3) have "n \<notin> name ` set ys"
      by simp
    with False show ?thesis
      by (simp add: parallelize_frame)
  qed
qed

subsection \<open>The shape of a run\<close>

lemma run_cases:
  fixes projects g opts e s
  defines "r \<equiv> run projects g opts e s"
  obtains (unbatched) err where
      "topologicallyBatchProjects projects g True = Inl err \<or>
       topologicallyBatchProjects projects g False = Inl err"
      and "trace r = []" and "records r = s" and "outcome r = Failed [err]"
  | (stopped) bws bs ievs ierr post err where
      "topologicallyBatchProjects projects g True = Inr bws"
      and "topologicallyBatchProjects projects g False = Inr bs"
      and "installBatches e (extraArgs opts) bws = (ievs, ierr)"
      and "(ierr = Some err \<and> post = []) \<or>
           (ierr = None \<and> \<not> readYarnLock_ok e \<and> post = [ReadYarnLock] \<and> err = LockReadError) \<or>
           (ierr = None \<and> readYarnLock_ok e \<and> \<not> validate_ok e \<and>
              post = [ReadYarnLock, ValidateDependencies] \<and> err = LockValidationError) \<or>
           (ierr = None \<and> readYarnLock_ok e \<and> validate_ok e \<and> \<not> link_ok e \<and>
              post = [ReadYarnLock, ValidateDependencies, LinkProjectExecutables] \<and>
              err = LinkError) \<or>
           (ierr = None \<and> readYarnLock_ok e \<and> validate_ok e \<and> link_ok e \<and> \<not> checksums_ok e \<and>
              post = [ReadYarnLock, ValidateDependencies, LinkProjectExecutables,
                GetAllChecksums] \<and>
              err = ChecksumError)"
      and "trace r = map Call ievs @ map Call post"
      and "records r = s" and "outcome r = Failed [err]"
  | (built) bws bs ievs rs fs s' where
      "topologicallyBatchProjects projects g True = Inr bws"
      and "topologicallyBatchProjects projects g False = Inr bs"
      and "installBatches e (extraArgs opts) bws = (ievs, None)"
      and "readYarnLock_ok e" and "validate_ok e" and "link_ok e" and "checksums_ok e"
      and "parallelizeBatches bs (bootstrapUnit e (decisions opts e s projects)) s = (rs, fs, s')"
      and "trace r = map Call ievs @ map Call [ReadYarnLock, ValidateDependencies,
             LinkProjectExecutables, GetAllChecksums] @
             map Call (snd (getCaches opts e s projects Map.empty)) @ map Batch rs"
      and "records r = s'" and "outcome r = (if fs = [] then Done else Failed fs)"
proof (cases "topologicallyBatchProjects projects g True")
  case (Inl err)
  then have "trace r = []" "records r = s" "outcome r = Failed [err]"
    by (simp_all add: r_def run_def)
  with Inl show ?thesis
    using unbatched by blast
next
  case bws: (Inr bws)
  show ?thesis
  proof (cases "topologicallyBatchProjects projects g False")
    case (Inl err)
    with bws have "trace r = []" "records r = s" "outcome r = Failed [err]"
      by (simp_all add: r_def run_def)
    with Inl show ?thesis
      using unbatched by blast
  next
    case bs: (Inr bs)
    obtain ievs ierr where inst: "installBatches e (extraArgs opts) bws = (ievs, ierr)"
      by (cases "installBatches e (extraArgs opts) bws")
    obtain rs fs s' where pb:
      "parallelizeBatches bs (bootstrapUnit e (decisions opts e s projects)) s = (rs, fs, s')"
      by (cases "parallelizeBatches bs (bootstrapUnit e (decisions opts e s projects)) s")
    show ?thesis
    proof (cases "ierr = None \<and> readYarnLock_ok e \<and> validate_ok e \<and> link_ok e \<and> checksums_ok e")
      case True
      with bws bs inst pb have
        "trace r = map Call ievs @ map Call [ReadYarnLock, ValidateDependencies,
             LinkProjectExecutables, GetAllChecksums] @
             map Call (snd (getCaches opts e s projects Map.empty)) @ map Batch rs"
        "records r = s'" "outcome r = (if fs = [] then Done else Failed fs)"
        by (simp_all add: r_def run_def decisions_def case_prod_beta)
      with True bws bs inst pb show ?thesis
        using built by blast
    next
      case False
      then consider
          (a) err where "ierr = Some err"
        | (b) "ierr = None" "\<not> readYarnLock_ok e"
        | (c) "ierr = None" "readYarnLock_ok e" "\<not> validate_ok e"
        | (d) "ierr = None" "readYarnLock_ok e" "validate_ok e" "\<not> link_ok e"
        | (e) "ierr = None" "readYarnLock_ok e" "validate_ok e" "link_ok e" "\<not> checksums_ok e"
        by (cases ierr) auto
      then show ?thesis
      proof cases
        case a
        with bws bs inst have "trace r = map Call ievs @ map Call []"
          "records r = s" "outcome r = Failed [err]"
          by (simp_all add: r_def run_def)
        with a bws bs inst show ?thesis
          using stopped [of bws bs ievs ierr err "[]"] by blast
      next
        case b
        with bws bs inst have "trace r = map Call ievs @ map Call [ReadYarnLock]"
          "records r = s" "outcome r = Failed [LockReadError]"
          by (simp_all add: r_def run_def)
        with b bws bs inst show ?thesis
          using stopped [of bws bs ievs ierr LockReadError "[ReadYarnLock]"] by blast
      next
        case c
        with bws bs inst have
          "trace r = map Call ievs @ map Call [ReadYarnLock, ValidateDependencies]"
          "records r = s" "outcome r = Failed [LockValidationError]"
          by (simp_all add: r_def run_def)
        with c bws bs inst show ?thesis
          using stopped [of bws bs ievs ierr LockValidationError
              "[ReadYarnLock, ValidateDependencies]"] by blast
      next
        case d
        with bws bs inst have
          "trace r = map Call ievs @ map Call [ReadYarnLock, ValidateDependencies,
             LinkProjectExecutables]"
          "records r = s" "outcome r = Failed [LinkError]"
          by (simp_all add: r_def run_def)
        with d bws bs inst show ?thesis
          using stopped [of bws bs ievs ierr LinkError
              "[ReadYarnLock, ValidateDependencies, LinkProjectExecutables]"] by blast
      next
        case e
        with bws bs inst have
          "trace r = map Call ievs @ map Call [ReadYarnLock, ValidateDependencies,
             LinkProjectExecutables, GetAllChecksums]"
          "records r = s" "outcome r = Failed [ChecksumError]"
          by (simp_all add: r_def run_def)
        with e bws bs inst show ?thesis
          using stopped [of bws bs ievs ierr ChecksumError
              "[ReadYarnLock, ValidateDependencies, LinkProjectExecutables,
                GetAllChecksums]"] by blast
      qed
    qed
  qed
qed

subsection \<open>Failure of a unit of the build phase\<close>

lemma concat_index_unique:
  "distinct (concat bs) \<Longrightarrow> i < length bs \<Longrightarrow> j < length bs \<Longrightarrow>
   x \<in> set (bs ! i) \<Longrightarrow> x \<in> set (bs ! j) \<Longrightarrow> i = j"
proof (induction bs arbitrary: i j)
  case Nil
  then show ?case by simp
next
  case (Cons b bs)
  show ?case
  proof (cases i)
    case 0
    show ?thesis
    proof (cases j)
      case 0
      with \<open>i = 0\<close> show ?thesis by simp
    next
      case (Suc j')
      with 0 Cons.prems have "x \<in> set b" "x \<in> set (bs ! j')" "j' < length bs"
        by simp_all
      then have "x \<in> set b \<inter> set (concat bs)"
        by auto
      with Cons.prems(1) show ?thesis
        by auto
    qed
  next
    case i: (Suc i')
    show ?thesis
    proof (cases j)
      case 0
      with i Cons.prems have "x \<in> set b" "x \<in> set (bs ! i')" "i' < length bs"
        by simp_all
      then have "x \<in> set b \<inter> set (concat bs)"
        by auto
      with Cons.prems(1) show ?thesis
        by auto
    next
      case (Suc j')
      with i Cons.prems Cons.IH [of i' j'] show ?thesis
        by simp
    qed
  qed
qed

lemma batches_of_distinct_names:
  assumes "topologicallyBatchProjects ps g scoped = Inr bs" and "distinct (map name ps)"
  shows "set (concat bs) = set ps" and "distinct (concat bs)"
    and "distinct (map name (concat bs))"
proof -
  from assms(1) have bl: "batchLayers g scoped ps = Inr bs"
    by (simp add: topologicallyBatchProjects_def)
  from assms(2) have d: "distinct ps" and inj: "inj_on name (set ps)"
    by (simp_all add: distinct_map)
  show s: "set (concat bs) = set ps"
    using bl by (rule batchLayers_set)
  show c: "distinct (concat bs)"
    using bl d by (rule batchLayers_distinct)
  from s c inj show "distinct (map name (concat bs))"
    by (simp add: distinct_map)
qed

lemma concat_take_subset: "set (concat (take k bs)) \<subseteq> set (concat bs)"
  by (auto dest: in_set_takeD)

lemma distinct_names_take:
  assumes "distinct (map name (concat bs))"
  shows "distinct (map name (concat (take k bs)))"
proof -
  have "concat bs = concat (take k bs) @ concat (drop k bs)"
    by (metis append_take_drop_id concat_append)
  with assms show ?thesis
    by simp
qed

lemma Batch_in_trace:
  "Batch us \<in> set (map Call xs @ map Call ys @ map Call zs @ map Batch rs) \<longleftrightarrow> us \<in> set rs"
  by auto


lemma in_set_not_butlast: "x \<in> set xs \<Longrightarrow> x \<notin> set (butlast xs) \<Longrightarrow> x = last xs"
  by (cases xs rule: rev_cases) auto

lemma run_build_phase:
  assumes "Batch us \<in> set (trace (run projects g opts e s))"
  obtains bs rs fs pre where
      "topologicallyBatchProjects projects g False = Inr bs"
      and "parallelizeBatches bs (bootstrapUnit e (decisions opts e s projects)) s =
             (rs, fs, records (run projects g opts e s))"
      and "us \<in> set rs"
      and "trace (run projects g opts e s) = map Call pre @ map Batch rs"
      and "outcome (run projects g opts e s) = (if fs = [] then Done else Failed fs)"
proof (cases projects g opts e s rule: run_cases)
  case (unbatched err)
  with assms show ?thesis by simp
next
  case (stopped bws bs ievs ierr post err)
  with assms show ?thesis by auto
next
  case (built bws bs ievs rs fs s')
  from assms built(9) have "us \<in> set rs"
    by auto
  moreover from built(9) have "trace (run projects g opts e s) =
      map Call (ievs @ [ReadYarnLock, ValidateDependencies, LinkProjectExecutables,
        GetAllChecksums] @ snd (getCaches opts e s projects Map.empty)) @ map Batch rs"
    by simp
  ultimately show ?thesis
    using built(2,8,10,11) that by blast
qed

lemma started_unit:
  assumes "parallelizeBatches bs (bootstrapUnit e (decisions opts e s0 projects)) s = (rs, fs, s')"
    and "us \<in> set rs" and "u \<in> set us"
  shows "map fst us \<in> set (take (length rs) bs)"
    and "fst u \<in> set (concat (take (length rs) bs))"
    and "snd u = fst (bootstrapUnit e (decisions opts e s0 projects) (fst u) st)"
proof -
  note sh = parallelizeBatches_shape [OF assms(1)]
  from assms(2) have "map fst us \<in> set (map (map fst) rs)"
    by simp
  with sh show b: "map fst us \<in> set (take (length rs) bs)"
    by simp
  from assms(3) have "fst u \<in> set (map fst us)"
    by simp
  with b show "fst u \<in> set (concat (take (length rs) bs))"
    unfolding set_concat by blast
  from sh assms(2,3) obtain t
    where "snd u = fst (bootstrapUnit e (decisions opts e s0 projects) (fst u) t)"
    by blast
  then show "snd u = fst (bootstrapUnit e (decisions opts e s0 projects) (fst u) st)"
    using unit_result_indep [of e opts s0 projects "fst u" t st] by simp
qed

lemma run_unit_record:
  assumes "distinct (map name projects)"
    and "Batch us \<in> set (trace (run projects g opts e s))" and "u \<in> set us"
  shows "fst u \<in> set projects"
    and "snd u = fst (bootstrapUnit e (decisions opts e s projects) (fst u) st)"
    and "records (run projects g opts e s) (name (fst u)) =
           snd (bootstrapUnit e (decisions opts e s projects) (fst u) s) (name (fst u))"
proof -
  from assms(2) obtain bs rs fs pre where bs: "topologicallyBatchProjects projects g False = Inr bs"
    and pb: "parallelizeBatches bs (bootstrapUnit e (decisions opts e s projects)) s =
      (rs, fs, records (run projects g opts e s))"
    and us: "us \<in> set rs"
    by (rule run_build_phase)
  note su = started_unit [OF pb us assms(3)]
  note bd = batches_of_distinct_names [OF bs assms(1)]
  from su(2) bd(1) show "fst u \<in> set projects"
    using concat_take_subset [of "length rs" bs] by auto
  show "snd u = fst (bootstrapUnit e (decisions opts e s projects) (fst u) st)"
    by (rule su(3))
  have "records (run projects g opts e s) =
      snd (parallelize (concat (take (length rs) bs))
        (bootstrapUnit e (decisions opts e s projects)) s)"
    using parallelizeBatches_shape [OF pb] by simp
  moreover have "distinct (map name (concat (take (length rs) bs)))"
    using bd(3) by (rule distinct_names_take)
  ultimately show "records (run projects g opts e s) (name (fst u)) =
      snd (bootstrapUnit e (decisions opts e s projects) (fst u) s) (name (fst u))"
    using su(2) by (simp add: parallelize_own_record)
qed

text \<open>
  C7. When a unit of a build-phase batch fails, every unit of that batch has run to its
  end, the batch is the last step of the run (no unit of a later batch is started, so a
  project that depends on the failed one never starts its build), and the run fails
  with the failures of that batch, the error of the failed unit among them.
\<close>

theorem failed_unit_stops_build_phase:
  assumes "Batch us \<in> set (trace (run projects g opts e s))"
    and "(a, evs, Some err) \<in> set us"
  shows "(\<exists>bs. topologicallyBatchProjects projects g False = Inr bs \<and> map fst us \<in> set bs)
       \<and> (\<forall>u \<in> set us. \<forall>st.
             snd u = fst (bootstrapUnit e (decisions opts e s projects) (fst u) st))
       \<and> last (trace (run projects g opts e s)) = Batch us
       \<and> (distinct (map name projects) \<longrightarrow>
            (\<forall>b us'. (b, a) \<in> edges projects g \<and> Batch us' \<in> set (trace (run projects g opts e s))
               \<longrightarrow> b \<notin> fst ` set us'))
       \<and> err = BuildError (name a)
       \<and> err \<in> set (failures us)
       \<and> outcome (run projects g opts e s) = Failed (failures us)"
proof -
  let ?r = "run projects g opts e s"
  let ?U = "bootstrapUnit e (decisions opts e s projects)"
  from assms(1) obtain bs rs fs pre where bs: "topologicallyBatchProjects projects g False = Inr bs"
    and pb: "parallelizeBatches bs ?U s = (rs, fs, records ?r)"
    and us: "us \<in> set rs"
    and tr: "trace ?r = map Call pre @ map Batch rs"
    and out: "outcome ?r = (if fs = [] then Done else Failed fs)"
    by (rule run_build_phase)
  note sh = parallelizeBatches_shape [OF pb]
  from assms(2) have failed: "failures us \<noteq> []"
    by (force simp: failures_empty_iff)
  with sh us have fs: "fs \<noteq> []"
    by blast
  with sh have rs: "rs \<noteq> []" and fl: "fs = failures (last rs)"
    by simp_all
  from us failed sh have "us \<notin> set (butlast rs)"
    by blast
  with us have last: "us = last rs"
    by (rule in_set_not_butlast)
  have 1: "\<exists>bs. topologicallyBatchProjects projects g False = Inr bs \<and> map fst us \<in> set bs"
    using bs started_unit(1) [OF pb us assms(2)] by (blast dest: in_set_takeD)
  have 2: "\<forall>u \<in> set us. \<forall>st. snd u = fst (?U (fst u) st)"
    using started_unit(3) [OF pb us] by blast
  have 3: "last (trace ?r) = Batch us"
    using tr rs last by (simp add: last_map)
  have 5: "err = BuildError (name a)"
  proof -
    from 2 assms(2) have u: "(evs, Some err) = fst (?U a s)"
      by force
    show ?thesis
      by (cases opts e s projects a rule: unit_decided_cases) (use u in simp_all)
  qed
  have 6: "err \<in> set (failures us)"
    using assms(2) by (force simp: failures_mem)
  have 7: "outcome ?r = Failed (failures us)"
    using out fs fl last by simp
  have 4: "distinct (map name projects) \<longrightarrow>
      (\<forall>b us'. (b, a) \<in> edges projects g \<and> Batch us' \<in> set (trace ?r) \<longrightarrow> b \<notin> fst ` set us')"
  proof (intro impI allI notI, elim conjE)
    fix b us'
    assume dn: "distinct (map name projects)" and e: "(b, a) \<in> edges projects g"
      and us': "Batch us' \<in> set (trace ?r)" and b: "b \<in> fst ` set us'"
    note bd = batches_of_distinct_names [OF bs dn]
    from bs have bl: "batchLayers g False projects = Inr bs"
      by (simp add: topologicallyBatchProjects_def)
    from e have "b \<in> set projects" "a \<in> set projects" "name a \<in> set (g (name b))"
      by (simp_all add: edges_def)
    with batchLayers_order [OF bl, of b a] obtain i j
      where ij: "j < i" "i < length bs" "b \<in> set (bs ! i)" "a \<in> set (bs ! j)"
      by auto
    from sh have eq: "map (map fst) rs = take (length rs) bs"
      by simp
    have len: "length rs \<le> length bs"
      using arg_cong [OF eq, of length] by simp
    have in_step: "\<And>x k. k < length rs \<Longrightarrow> x \<in> fst ` set (rs ! k) \<Longrightarrow> x \<in> set (bs ! k)"
    proof -
      fix x k
      assume k: "k < length rs" and "x \<in> fst ` set (rs ! k)"
      then have "x \<in> set (map (map fst) rs ! k)"
        by simp
      then have "x \<in> set (take (length rs) bs ! k)"
        by (simp only: eq)
      with k show "x \<in> set (bs ! k)"
        by simp
    qed
    from rs have lastk: "last rs = rs ! (length rs - 1)" and k: "length rs - 1 < length rs"
      by (simp_all add: last_conv_nth)
    from assms(2) last lastk have "a \<in> fst ` set (rs ! (length rs - 1))"
      by force
    with in_step k have "a \<in> set (bs ! (length rs - 1))"
      by blast
    with ij(4) bd(2) len k ij(1,2) have j: "j = length rs - 1"
      using concat_index_unique [of bs j "length rs - 1" a] by simp
    from us' tr have "us' \<in> set rs"
      by auto
    then obtain k' where k': "k' < length rs" "us' = rs ! k'"
      by (auto simp: in_set_conv_nth)
    with b in_step have "b \<in> set (bs ! k')"
      by blast
    with ij(3) bd(2) len k' ij(2) have "i = k'"
      using concat_index_unique [of bs i k' b] by simp
    with j ij(1) k' show False
      by simp
  qed
  from 1 2 3 4 5 6 7 show ?thesis
    by (intro conjI)
qed

lemma ex_fields:
  "name ex_core = ''core''" "isWorkspaceProject ex_core = False" "hasDependencies ex_core = True"
  "hasBuildTargets ex_core = True" "hasScript ex_core ''osd:bootstrap'' = True"
  "name ex_plugin = ''plugin''" "isWorkspaceProject ex_plugin = False"
  "hasDependencies ex_plugin = True" "hasBuildTargets ex_plugin = False"
  "hasScript ex_plugin ''osd:bootstrap'' = True"
  "name ex_ws = ''ws''" "isWorkspaceProject ex_ws = True" "hasDependencies ex_ws = True"
  "hasBuildTargets ex_ws = True" "hasScript ex_ws ''osd:bootstrap'' = False"
  "name ex_docs = ''docs''" "isWorkspaceProject ex_docs = False"
  "hasDependencies ex_docs = False" "hasBuildTargets ex_docs = False"
  "hasScript ex_docs ''osd:bootstrap'' = False"
  by (simp_all add: ex_core_def ex_plugin_def ex_ws_def ex_docs_def hasScript_def)

lemma ex_unresolved [simp]:
  "unresolved ex_graph scoped [ex_plugin, ex_core] ex_plugin"
  "\<not> unresolved ex_graph scoped [ex_plugin, ex_core] ex_core"
  "\<not> unresolved ex_graph scoped [ex_plugin] ex_plugin"
  by (simp_all add: unresolved_def ex_graph_def ex_plugin_def ex_core_def)

lemma ex_batches:
  "topologicallyBatchProjects [ex_plugin, ex_core] ex_graph scoped = Inr [ [ex_core], [ex_plugin] ]"
  unfolding topologicallyBatchProjects_def
  by (subst batchLayers.simps, simp, subst batchLayers.simps, simp add: batchLayers_Nil)

lemma ex_run_failing_trace:
  "trace (run [ex_plugin, ex_core] ex_graph ex_opts ex_env_failing Map.empty) =
     [Call (InstallDependencies ''core'' [''--frozen-lockfile'']),
      Call (InstallDependencies ''plugin'' [''--frozen-lockfile'']),
      Call ReadYarnLock, Call ValidateDependencies, Call LinkProjectExecutables,
      Call GetAllChecksums, Call (CacheIsValid ''plugin''), Call (CacheIsValid ''core''),
      Batch [(ex_core, [CacheDelete ''core'', BuildForTargets ''core'' True],
               Some (BuildError ''core''))] ]"
  by (simp add: run_def ex_batches extraArgs_def ex_opts_def ex_env_failing_def ex_env_def
      ex_fields ex_projects_distinct new_BootstrapCacheFile_def file_isValid_def
      file_delete_def file_write_def bootstrapUnit_def failures_def List.map_filter_simps)


lemma ex_run_failing_outcome:
  "outcome (run [ex_plugin, ex_core] ex_graph ex_opts ex_env_failing Map.empty) =
     Failed [BuildError ''core'']"
  by (simp add: run_def ex_batches extraArgs_def ex_opts_def ex_env_failing_def ex_env_def
      ex_fields ex_projects_distinct new_BootstrapCacheFile_def file_isValid_def
      file_delete_def file_write_def bootstrapUnit_def failures_def List.map_filter_simps)

theorem failed_unit_stops_build_phase_witness:
  "Batch [(ex_core, [CacheDelete ''core'', BuildForTargets ''core'' True],
            Some (BuildError ''core''))]
     \<in> set (trace (run [ex_plugin, ex_core] ex_graph ex_opts ex_env_failing Map.empty)) \<and>
   (ex_core, [CacheDelete ''core'', BuildForTargets ''core'' True], Some (BuildError ''core''))
     \<in> set [(ex_core, [CacheDelete ''core'', BuildForTargets ''core'' True],
               Some (BuildError ''core''))] \<and>
   distinct (map name [ex_plugin, ex_core]) \<and>
   (ex_plugin, ex_core) \<in> edges [ex_plugin, ex_core] ex_graph \<and>
   last (trace (run [ex_plugin, ex_core] ex_graph ex_opts ex_env_failing Map.empty)) =
     Batch [(ex_core, [CacheDelete ''core'', BuildForTargets ''core'' True],
              Some (BuildError ''core''))] \<and>
   \<not> (\<exists>us'. Batch us'
          \<in> set (trace (run [ex_plugin, ex_core] ex_graph ex_opts ex_env_failing Map.empty)) \<and>
        ex_plugin \<in> fst ` set us') \<and>
   outcome (run [ex_plugin, ex_core] ex_graph ex_opts ex_env_failing Map.empty) =
     Failed [BuildError ''core'']"
proof -
  let ?us = "[(ex_core, [CacheDelete ''core'', BuildForTargets ''core'' True],
    Some (BuildError ''core''))]"
  let ?r = "run [ex_plugin, ex_core] ex_graph ex_opts ex_env_failing Map.empty"
  have h1: "Batch ?us \<in> set (trace ?r)"
    by (simp add: ex_run_failing_trace)
  have h2: "(ex_core, [CacheDelete ''core'', BuildForTargets ''core'' True],
      Some (BuildError ''core'')) \<in> set ?us"
    by simp
  have d: "distinct (map name [ex_plugin, ex_core])"
    by (simp add: ex_fields)
  have m: "(ex_plugin, ex_core) \<in> edges [ex_plugin, ex_core] ex_graph"
    by (simp add: edges_def ex_graph_def ex_fields)
  have f: "failures ?us = [BuildError ''core'']"
    by (simp add: failures_def List.map_filter_simps)
  note t = failed_unit_stops_build_phase [OF h1 h2]
  from t have "last (trace ?r) = Batch ?us"
    by blast
  moreover from t d m have "\<not> (\<exists>us'. Batch us' \<in> set (trace ?r) \<and> ex_plugin \<in> fst ` set us')"
    by blast
  moreover from t f have "outcome ?r = Failed [BuildError ''core'']"
    by simp
  ultimately show ?thesis
    using h1 h2 d m by blast
qed

subsection \<open>What the build phase does to a project\<close>

lemma run_records:
  "records (run projects g opts e s) = s \<or>
   (\<exists>bs rs fs. topologicallyBatchProjects projects g False = Inr bs \<and>
      parallelizeBatches bs (bootstrapUnit e (decisions opts e s projects)) s =
        (rs, fs, records (run projects g opts e s)))"
  by (cases projects g opts e s rule: run_cases) auto

lemma run_frame:
  assumes "distinct (map name projects)" and "p \<in> set projects"
    and "decisions opts e s projects p = None \<or>
         (\<exists>c. decisions opts e s projects p = Some c \<and> valid c)"
  shows "records (run projects g opts e s) (name p) = s (name p)"
proof -
  let ?U = "bootstrapUnit e (decisions opts e s projects)"
  from run_records [of projects g opts e s] show ?thesis
  proof
    assume "records (run projects g opts e s) = s"
    then show ?thesis by simp
  next
    assume "\<exists>bs rs fs. topologicallyBatchProjects projects g False = Inr bs \<and>
      parallelizeBatches bs ?U s = (rs, fs, records (run projects g opts e s))"
    then obtain bs rs fs where bs: "topologicallyBatchProjects projects g False = Inr bs"
      and pb: "parallelizeBatches bs ?U s = (rs, fs, records (run projects g opts e s))"
      by blast
    let ?started = "concat (take (length rs) bs)"
    note bd = batches_of_distinct_names [OF bs assms(1)]
    have rec: "records (run projects g opts e s) = snd (parallelize ?started ?U s)"
      using parallelizeBatches_shape [OF pb] by simp
    have dn: "distinct (map name ?started)"
      using bd(3) by (rule distinct_names_take)
    have sub: "set ?started \<subseteq> set projects"
      using concat_take_subset [of "length rs" bs] bd(1) by simp
    show ?thesis
    proof (cases "p \<in> set ?started")
      case True
      with dn have "snd (parallelize ?started ?U s) (name p) = snd (?U p s) (name p)"
        by (rule parallelize_own_record)
      with rec assms(3) show ?thesis
        by (simp add: unit_skip)
    next
      case False
      have "name p \<notin> name ` set ?started"
      proof
        assume "name p \<in> name ` set ?started"
        then obtain q where q: "q \<in> set ?started" "name q = name p"
          by (elim imageE) simp
        with sub have "q \<in> set projects"
          by blast
        with assms(1,2) q(2) have "q = p"
          by (auto simp: distinct_map dest: inj_onD)
        with q(1) False show False
          by simp
      qed
      then have "snd (parallelize ?started ?U s) (name p) = s (name p)"
        by (rule parallelize_frame)
      with rec show ?thesis
        by simp
    qed
  qed
qed

lemma unit_events:
  "ev \<in> set (fst (fst (bootstrapUnit e (decisions opts e s0 projects) q s))) \<Longrightarrow>
   ev = CacheDelete (name q) \<or> ev = BuildForTargets (name q) True \<or>
   ev = RunScriptStreaming (name q) ''osd:bootstrap'' \<or>
   ev = CacheWrite (name q) (fresh e (name q))"
proof (cases "decisions opts e s0 projects q = None \<or>
    (\<exists>c. decisions opts e s0 projects q = Some c \<and> valid c)")
  case True
  assume "ev \<in> set (fst (fst (bootstrapUnit e (decisions opts e s0 projects) q s)))"
  with True show ?thesis
    by (simp add: unit_skip)
next
  case False
  assume ev: "ev \<in> set (fst (fst (bootstrapUnit e (decisions opts e s0 projects) q s)))"
  from False obtain c where "decisions opts e s0 projects q = Some c" "\<not> valid c"
    by auto
  from ev unit_stale_decided [OF this, of s] show ?thesis
    by (auto split: if_splits)
qed

text \<open>
  C10. The unit of a project whose cache decision is valid, or that has no cache entry,
  makes no call and leaves the cache records as they are. In a run over projects with
  distinct names, no unit deletes or writes the record of such a project or builds it,
  and the record the run leaves for it is the one the run started with.
\<close>

theorem skipped_project_untouched:
  assumes "decisions opts e s projects p = None \<or>
           (\<exists>c. decisions opts e s projects p = Some c \<and> valid c)"
  shows "bootstrapUnit e (decisions opts e s projects) p st = (([], None), st)
       \<and> (distinct (map name projects) \<and> p \<in> set projects \<longrightarrow>
            records (run projects g opts e s) (name p) = s (name p) \<and>
            (\<forall>us u. Batch us \<in> set (trace (run projects g opts e s)) \<and> u \<in> set us \<longrightarrow>
               CacheDelete (name p) \<notin> set (fst (snd u)) \<and>
               (\<forall>f. CacheWrite (name p) f \<notin> set (fst (snd u))) \<and>
               (\<forall>b. BuildForTargets (name p) b \<notin> set (fst (snd u))) \<and>
               (\<forall>sc. RunScriptStreaming (name p) sc \<notin> set (fst (snd u)))))"
proof -
  let ?r = "run projects g opts e s"
  let ?U = "bootstrapUnit e (decisions opts e s projects)"
  have 1: "?U p st = (([], None), st)"
    using assms by (rule unit_skip)
  have 2: "distinct (map name projects) \<and> p \<in> set projects \<longrightarrow>
      records ?r (name p) = s (name p)"
    using run_frame assms by blast
  have 3: "distinct (map name projects) \<and> p \<in> set projects \<longrightarrow>
      (\<forall>us u. Batch us \<in> set (trace ?r) \<and> u \<in> set us \<longrightarrow>
         CacheDelete (name p) \<notin> set (fst (snd u)) \<and>
         (\<forall>f. CacheWrite (name p) f \<notin> set (fst (snd u))) \<and>
         (\<forall>b. BuildForTargets (name p) b \<notin> set (fst (snd u))) \<and>
         (\<forall>sc. RunScriptStreaming (name p) sc \<notin> set (fst (snd u))))"
  proof (intro impI allI, elim conjE)
    fix us u
    assume dn: "distinct (map name projects)" and p: "p \<in> set projects"
      and us: "Batch us \<in> set (trace ?r)" and u: "u \<in> set us"
    note ur = run_unit_record [OF dn us u]
    show "CacheDelete (name p) \<notin> set (fst (snd u)) \<and>
         (\<forall>f. CacheWrite (name p) f \<notin> set (fst (snd u))) \<and>
         (\<forall>b. BuildForTargets (name p) b \<notin> set (fst (snd u))) \<and>
         (\<forall>sc. RunScriptStreaming (name p) sc \<notin> set (fst (snd u)))"
    proof (cases "fst u = p")
      case True
      with ur(2) [of s] assms show ?thesis
        by (simp add: unit_skip)
    next
      case False
      with dn p ur(1) have ne: "name (fst u) \<noteq> name p"
        by (auto simp: distinct_map dest: inj_onD)
      have "\<And>ev. ev \<in> set (fst (snd u)) \<Longrightarrow>
          ev = CacheDelete (name (fst u)) \<or> ev = BuildForTargets (name (fst u)) True \<or>
          ev = RunScriptStreaming (name (fst u)) ''osd:bootstrap'' \<or>
          ev = CacheWrite (name (fst u)) (fresh e (name (fst u)))"
        using unit_events [of _ e opts s projects "fst u" s] ur(2) [of s] by simp
      with ne show ?thesis
        by fastforce
    qed
  qed
  from 1 2 3 show ?thesis
    by blast
qed


theorem skipped_project_untouched_witness:
  "(\<exists>c. decisions ex_opts ex_env [''core'' \<mapsto> ''core#1''] [ex_plugin, ex_core] ex_core = Some c \<and>
        valid c) \<and>
   distinct (map name [ex_plugin, ex_core]) \<and> ex_core \<in> set [ex_plugin, ex_core] \<and>
   bootstrapUnit ex_env (decisions ex_opts ex_env [''core'' \<mapsto> ''core#1''] [ex_plugin, ex_core])
     ex_core Map.empty = (([], None), Map.empty) \<and>
   records (run [ex_plugin, ex_core] ex_graph ex_opts ex_env [''core'' \<mapsto> ''core#1''])
     (name ex_core) = [''core'' \<mapsto> ''core#1''] (name ex_core) \<and>
   \<not> (\<exists>us u. Batch us
          \<in> set (trace (run [ex_plugin, ex_core] ex_graph ex_opts ex_env [''core'' \<mapsto> ''core#1''])) \<and>
        u \<in> set us \<and> CacheDelete (name ex_core) \<in> set (fst (snd u)))"
proof -
  let ?s = "[''core'' \<mapsto> ''core#1'']"
  let ?ps = "[ex_plugin, ex_core]"
  have v: "\<exists>c. decisions ex_opts ex_env ?s ?ps ex_core = Some c \<and> valid c"
    by (simp add: decisions_lookup file_isValid_new ex_fields ex_opts_def ex_env_def)
  then have h: "decisions ex_opts ex_env ?s ?ps ex_core = None \<or>
      (\<exists>c. decisions ex_opts ex_env ?s ?ps ex_core = Some c \<and> valid c)"
    by (rule disjI2)
  have d: "distinct (map name ?ps)" and m: "ex_core \<in> set ?ps"
    by (simp_all add: ex_fields)
  note t = skipped_project_untouched [OF h, of Map.empty ex_graph]
  from t have "bootstrapUnit ex_env (decisions ex_opts ex_env ?s ?ps) ex_core Map.empty =
      (([], None), Map.empty)"
    by (rule conjunct1)
  moreover from t d m have "records (run ?ps ex_graph ex_opts ex_env ?s) (name ex_core) =
      ?s (name ex_core)"
    by blast
  moreover from t d m have "\<not> (\<exists>us u. Batch us \<in> set (trace (run ?ps ex_graph ex_opts ex_env ?s)) \<and>
      u \<in> set us \<and> CacheDelete (name ex_core) \<in> set (fst (snd u)))"
    by blast
  ultimately show ?thesis
    using v d m by blast
qed

text \<open>
  C1. The unit of a project whose cache decision is stale deletes the project's cache
  record, then runs the build targets (or, without build targets, the
  \<^verbatim>\<open>osd:bootstrap\<close> script), and writes the fresh record only when that step
  succeeded. When the step does not complete, the unit ends after the delete: in a run
  over projects with distinct names the project is left without a cache record, and no
  later run can decide that its cache is valid from these records.
\<close>

theorem invalidate_run_commit:
  assumes "decisions opts e s0 projects p = Some c" and "\<not> valid c"
  shows "(hasBuildTargets p \<and> build_ok e (name p) \<longrightarrow>
            bootstrapUnit e (decisions opts e s0 projects) p s =
              (([CacheDelete (name p), BuildForTargets (name p) True,
                 CacheWrite (name p) (fresh e (name p))], None),
               s(name p \<mapsto> fresh e (name p))))
       \<and> (hasBuildTargets p \<and> \<not> build_ok e (name p) \<longrightarrow>
            bootstrapUnit e (decisions opts e s0 projects) p s =
              (([CacheDelete (name p), BuildForTargets (name p) True],
                Some (BuildError (name p))), s(name p := None)))
       \<and> (\<not> hasBuildTargets p \<and> script_ok e (name p) \<longrightarrow>
            bootstrapUnit e (decisions opts e s0 projects) p s =
              (([CacheDelete (name p), RunScriptStreaming (name p) ''osd:bootstrap'',
                 CacheWrite (name p) (fresh e (name p))], None),
               s(name p \<mapsto> fresh e (name p))))
       \<and> (\<not> hasBuildTargets p \<and> \<not> script_ok e (name p) \<longrightarrow>
            bootstrapUnit e (decisions opts e s0 projects) p s =
              (([CacheDelete (name p), RunScriptStreaming (name p) ''osd:bootstrap''],
                Some (BuildError (name p))), s(name p := None)))
       \<and> (distinct (map name projects) \<longrightarrow>
            (\<forall>us evs err.
               Batch us \<in> set (trace (run projects g opts e s0)) \<and> (p, evs, Some err) \<in> set us
               \<longrightarrow> records (run projects g opts e s0) (name p) = None \<and>
                   (\<forall>opts' e' c'.
                      decisions opts' e' (records (run projects g opts e s0)) projects p = Some c'
                      \<longrightarrow> \<not> valid c')))"
proof -
  let ?U = "bootstrapUnit e (decisions opts e s0 projects)"
  let ?r = "run projects g opts e s0"
  note u = unit_stale_decided [OF assms, of s]
  have a: "hasBuildTargets p \<and> build_ok e (name p) \<longrightarrow>
      ?U p s =
        (([CacheDelete (name p), BuildForTargets (name p) True,
           CacheWrite (name p) (fresh e (name p))], None),
         s(name p \<mapsto> fresh e (name p)))"
    by (simp add: u)
  have b: "hasBuildTargets p \<and> \<not> build_ok e (name p) \<longrightarrow>
      ?U p s =
        (([CacheDelete (name p), BuildForTargets (name p) True],
          Some (BuildError (name p))), s(name p := None))"
    by (simp add: u)
  have c: "\<not> hasBuildTargets p \<and> script_ok e (name p) \<longrightarrow>
      ?U p s =
        (([CacheDelete (name p), RunScriptStreaming (name p) ''osd:bootstrap'',
           CacheWrite (name p) (fresh e (name p))], None),
         s(name p \<mapsto> fresh e (name p)))"
    by (simp add: u)
  have d: "\<not> hasBuildTargets p \<and> \<not> script_ok e (name p) \<longrightarrow>
      ?U p s =
        (([CacheDelete (name p), RunScriptStreaming (name p) ''osd:bootstrap''],
          Some (BuildError (name p))), s(name p := None))"
    by (simp add: u)
  have stale: "\<And>t opts' e' projects' c'. t (name p) = None \<Longrightarrow>
      decisions opts' e' t projects' p = Some c' \<Longrightarrow> \<not> valid c'"
    by (auto simp: decisions_lookup file_isValid_new split: if_splits)
  have gone: "records ?r (name p) = None"
    if dn: "distinct (map name projects)" and us: "Batch us \<in> set (trace ?r)"
      and f: "(p, evs, Some err) \<in> set us" for us evs err
  proof -
    note ur = run_unit_record [OF dn us f]
    from ur(2) [of s0] have res: "fst (?U p s0) = (evs, Some err)"
      by simp
    from unit_stale_decided [OF assms, of s0] res have "snd (?U p s0) = s0(name p := None)"
      by (auto split: if_splits)
    with ur(3) show ?thesis
      by simp
  qed
  have f: "distinct (map name projects) \<longrightarrow>
      (\<forall>us evs err. Batch us \<in> set (trace ?r) \<and> (p, evs, Some err) \<in> set us
         \<longrightarrow> records ?r (name p) = None \<and>
             (\<forall>opts' e' c'. decisions opts' e' (records ?r) projects p = Some c'
                \<longrightarrow> \<not> valid c'))"
    using gone stale by blast
  from a b c d f show ?thesis
    by (intro conjI)
qed


lemma ex_core_stale:
  "decisions ex_opts ex_env_failing Map.empty [ex_plugin, ex_core] ex_core =
     Some \<lparr>cfile = \<lparr>cf_project = ''core'', cf_expected = ''core#1''\<rparr>, valid = False\<rparr>"
  "decisions ex_opts ex_env Map.empty [ex_plugin, ex_core] ex_core =
     Some \<lparr>cfile = \<lparr>cf_project = ''core'', cf_expected = ''core#1''\<rparr>, valid = False\<rparr>"
  by (simp_all add: decisions_lookup file_isValid_def new_BootstrapCacheFile_def ex_fields
      ex_opts_def ex_env_def ex_env_failing_def)

theorem invalidate_run_commit_witness:
  "decisions ex_opts ex_env Map.empty [ex_plugin, ex_core] ex_core =
     Some \<lparr>cfile = \<lparr>cf_project = ''core'', cf_expected = ''core#1''\<rparr>, valid = False\<rparr> \<and>
   \<not> valid \<lparr>cfile = \<lparr>cf_project = ''core'', cf_expected = ''core#1''\<rparr>, valid = False\<rparr> \<and>
   hasBuildTargets ex_core \<and> build_ok ex_env (name ex_core) \<and>
   bootstrapUnit ex_env (decisions ex_opts ex_env Map.empty [ex_plugin, ex_core]) ex_core
       [''core'' \<mapsto> ''old''] =
     (([CacheDelete (name ex_core), BuildForTargets (name ex_core) True,
        CacheWrite (name ex_core) (fresh ex_env (name ex_core))], None),
      [''core'' \<mapsto> ''old''](name ex_core \<mapsto> fresh ex_env (name ex_core))) \<and>
   decisions ex_opts ex_env_failing Map.empty [ex_plugin, ex_core] ex_core =
     Some \<lparr>cfile = \<lparr>cf_project = ''core'', cf_expected = ''core#1''\<rparr>, valid = False\<rparr> \<and>
   \<not> build_ok ex_env_failing (name ex_core) \<and>
   bootstrapUnit ex_env_failing (decisions ex_opts ex_env_failing Map.empty [ex_plugin, ex_core])
       ex_core [''core'' \<mapsto> ''old''] =
     (([CacheDelete (name ex_core), BuildForTargets (name ex_core) True],
       Some (BuildError (name ex_core))), [''core'' \<mapsto> ''old''](name ex_core := None)) \<and>
   distinct (map name [ex_plugin, ex_core]) \<and>
   Batch [(ex_core, [CacheDelete ''core'', BuildForTargets ''core'' True],
            Some (BuildError ''core''))]
     \<in> set (trace (run [ex_plugin, ex_core] ex_graph ex_opts ex_env_failing Map.empty)) \<and>
   records (run [ex_plugin, ex_core] ex_graph ex_opts ex_env_failing Map.empty) (name ex_core) =
     None \<and>
   \<not> (\<exists>opts' e' c'.
        decisions opts' e'
          (records (run [ex_plugin, ex_core] ex_graph ex_opts ex_env_failing Map.empty))
          [ex_plugin, ex_core] ex_core = Some c' \<and> valid c')"
proof -
  let ?c = "\<lparr>cfile = \<lparr>cf_project = ''core'', cf_expected = ''core#1''\<rparr>, valid = False\<rparr>"
  let ?ps = "[ex_plugin, ex_core]"
  let ?s = "[''core'' \<mapsto> ''old'']"
  let ?us = "[(ex_core, [CacheDelete ''core'', BuildForTargets ''core'' True],
    Some (BuildError ''core''))]"
  let ?r = "run ?ps ex_graph ex_opts ex_env_failing Map.empty"
  have nv: "\<not> valid ?c"
    by simp
  have ok: "hasBuildTargets ex_core \<and> build_ok ex_env (name ex_core)"
    by (simp add: ex_fields ex_env_def)
  have ko: "hasBuildTargets ex_core \<and> \<not> build_ok ex_env_failing (name ex_core)"
    by (simp add: ex_fields ex_env_failing_def)
  have d: "distinct (map name ?ps)"
    by (simp add: ex_fields)
  have b: "Batch ?us \<in> set (trace ?r)"
    by (simp add: ex_run_failing_trace)
  have m: "(ex_core, [CacheDelete ''core'', BuildForTargets ''core'' True],
      Some (BuildError ''core'')) \<in> set ?us"
    by simp
  note good = invalidate_run_commit [OF ex_core_stale(2) nv, of ?s ex_graph]
  note bad = invalidate_run_commit [OF ex_core_stale(1) nv, of ?s ex_graph]
  from good ok have 1: "bootstrapUnit ex_env (decisions ex_opts ex_env Map.empty ?ps) ex_core ?s =
     (([CacheDelete (name ex_core), BuildForTargets (name ex_core) True,
        CacheWrite (name ex_core) (fresh ex_env (name ex_core))], None),
      ?s(name ex_core \<mapsto> fresh ex_env (name ex_core)))"
    by blast
  from bad ko have 2: "bootstrapUnit ex_env_failing
       (decisions ex_opts ex_env_failing Map.empty ?ps) ex_core ?s =
     (([CacheDelete (name ex_core), BuildForTargets (name ex_core) True],
       Some (BuildError (name ex_core))), ?s(name ex_core := None))"
    by blast
  from bad d b m have 3: "records ?r (name ex_core) = None \<and>
      (\<forall>opts' e' c'. decisions opts' e' (records ?r) ?ps ex_core = Some c' \<longrightarrow> \<not> valid c')"
    by blast
  then have 4: "\<not> (\<exists>opts' e' c'. decisions opts' e' (records ?r) ?ps ex_core = Some c' \<and> valid c')"
    by blast
  from ex_core_stale nv ok ko 1 2 d b 3 4 show ?thesis
    by (intro conjI) simp_all
qed

text \<open>
  C3. The unit of a project whose cache decision is stale runs the build targets and no
  script when the project declares build targets, also when it declares an
  \<^verbatim>\<open>osd:bootstrap\<close> script as well; it runs the script, and no build targets,
  only when the project declares no build targets.
\<close>

theorem build_targets_override_script:
  assumes "caches p = Some c" and "\<not> valid c"
  shows "(hasBuildTargets p \<longrightarrow>
            BuildForTargets (name p) True \<in> set (fst (fst (bootstrapUnit e caches p s))) \<and>
            (\<forall>n sc. RunScriptStreaming n sc \<notin> set (fst (fst (bootstrapUnit e caches p s)))))
       \<and> (\<not> hasBuildTargets p \<longrightarrow>
            RunScriptStreaming (name p) ''osd:bootstrap''
              \<in> set (fst (fst (bootstrapUnit e caches p s))) \<and>
            (\<forall>n b. BuildForTargets n b \<notin> set (fst (fst (bootstrapUnit e caches p s)))))"
  using assms by (simp add: bootstrapUnit_def Let_def)

theorem build_targets_override_script_witness:
  "decisions ex_opts ex_env Map.empty [ex_plugin, ex_core] ex_core =
     Some \<lparr>cfile = \<lparr>cf_project = ''core'', cf_expected = ''core#1''\<rparr>, valid = False\<rparr> \<and>
   \<not> valid \<lparr>cfile = \<lparr>cf_project = ''core'', cf_expected = ''core#1''\<rparr>, valid = False\<rparr> \<and>
   hasBuildTargets ex_core \<and> hasScript ex_core ''osd:bootstrap'' \<and>
   BuildForTargets (name ex_core) True
     \<in> set (fst (fst (bootstrapUnit ex_env
          (decisions ex_opts ex_env Map.empty [ex_plugin, ex_core]) ex_core Map.empty))) \<and>
   \<not> (\<exists>n sc. RunScriptStreaming n sc
     \<in> set (fst (fst (bootstrapUnit ex_env
          (decisions ex_opts ex_env Map.empty [ex_plugin, ex_core]) ex_core Map.empty))))"
proof -
  have nv: "\<not> valid \<lparr>cfile = \<lparr>cf_project = ''core'', cf_expected = ''core#1''\<rparr>, valid = False\<rparr>"
    by simp
  have hb: "hasBuildTargets ex_core" and hs: "hasScript ex_core ''osd:bootstrap''"
    by (simp_all add: ex_fields)
  from build_targets_override_script
    [where caches = "decisions ex_opts ex_env Map.empty [ex_plugin, ex_core]" and p = ex_core
       and e = ex_env and s = Map.empty, OF ex_core_stale(2) nv] hb
  have "BuildForTargets (name ex_core) True
     \<in> set (fst (fst (bootstrapUnit ex_env
          (decisions ex_opts ex_env Map.empty [ex_plugin, ex_core]) ex_core Map.empty))) \<and>
   \<not> (\<exists>n sc. RunScriptStreaming n sc
     \<in> set (fst (fst (bootstrapUnit ex_env
          (decisions ex_opts ex_env Map.empty [ex_plugin, ex_core]) ex_core Map.empty))))"
    by blast
  with ex_core_stale(2) nv hb hs show ?thesis
    by (intro conjI) simp_all
qed

subsection \<open>The install phase and the order of the phases\<close>

lemma installBatch_closed:
  "installBatch e args ps =
     (map (\<lambda>p. InstallDependencies (name p) args)
        (takeWhile (\<lambda>p. install_ok e (name p))
           (filter (\<lambda>p. \<not> isWorkspaceProject p \<and> hasDependencies p) ps) @
         take 1 (dropWhile (\<lambda>p. install_ok e (name p))
           (filter (\<lambda>p. \<not> isWorkspaceProject p \<and> hasDependencies p) ps))),
      (case dropWhile (\<lambda>p. install_ok e (name p))
           (filter (\<lambda>p. \<not> isWorkspaceProject p \<and> hasDependencies p) ps) of
         [] \<Rightarrow> None | p # rest \<Rightarrow> Some (InstallError (name p))))"
  by (induction ps) (simp_all add: case_prod_beta)

lemma while_append_all:
  assumes "\<forall>x \<in> set xs. P x"
  shows "takeWhile P (xs @ ys) = xs @ takeWhile P ys" and "dropWhile P (xs @ ys) = dropWhile P ys"
    and "takeWhile P xs = xs" and "dropWhile P xs = []"
  using assms by (simp_all add: takeWhile_append2 dropWhile_append2 takeWhile_eq_all_conv)

lemma while_append_stop:
  assumes "x \<in> set xs" and "\<not> P x"
  shows "takeWhile P (xs @ ys) = takeWhile P xs"
    and "dropWhile P (xs @ ys) = dropWhile P xs @ ys" and "dropWhile P xs \<noteq> []"
  using assms by (auto simp: takeWhile_append1 dropWhile_append1 dropWhile_eq_Nil_conv)

lemma installBatches_closed:
  "installBatches e args bs =
     (map (\<lambda>p. InstallDependencies (name p) args)
        (takeWhile (\<lambda>p. install_ok e (name p))
           (filter (\<lambda>p. \<not> isWorkspaceProject p \<and> hasDependencies p) (concat bs)) @
         take 1 (dropWhile (\<lambda>p. install_ok e (name p))
           (filter (\<lambda>p. \<not> isWorkspaceProject p \<and> hasDependencies p) (concat bs)))),
      (case dropWhile (\<lambda>p. install_ok e (name p))
           (filter (\<lambda>p. \<not> isWorkspaceProject p \<and> hasDependencies p) (concat bs)) of
         [] \<Rightarrow> None | p # rest \<Rightarrow> Some (InstallError (name p))))"
proof (induction bs)
  case Nil
  show ?case by simp
next
  case (Cons b bs)
  let ?ok = "\<lambda>p. install_ok e (name p)"
  let ?T = "filter (\<lambda>p. \<not> isWorkspaceProject p \<and> hasDependencies p)"
  have T: "?T (concat (b # bs)) = ?T b @ ?T (concat bs)"
    by simp
  show ?case
  proof (cases "\<forall>p \<in> set (?T b). ?ok p")
    case True
    note w = while_append_all [where P = "?ok", OF True]
    have tw: "takeWhile ?ok (?T b @ ?T (concat bs)) = ?T b @ takeWhile ?ok (?T (concat bs))"
      and dw: "dropWhile ?ok (?T b @ ?T (concat bs)) = dropWhile ?ok (?T (concat bs))"
      by (rule w)+
    have b: "installBatch e args b = (map (\<lambda>p. InstallDependencies (name p) args) (?T b), None)"
      by (simp only: installBatch_closed w(3,4)) simp
    show ?thesis
      unfolding T tw dw
      by (simp add: b Cons.IH)
  next
    case False
    then obtain x where x: "x \<in> set (?T b)" "\<not> ?ok x"
      by blast
    note w = while_append_stop [where P = "?ok", OF x]
    have tw: "takeWhile ?ok (?T b @ ?T (concat bs)) = takeWhile ?ok (?T b)"
      and dw: "dropWhile ?ok (?T b @ ?T (concat bs)) = dropWhile ?ok (?T b) @ ?T (concat bs)"
      by (rule w)+
    from w(3) obtain y ys where d: "dropWhile ?ok (?T b) = y # ys"
      by (cases "dropWhile ?ok (?T b)") auto
    have b: "installBatch e args b =
        (map (\<lambda>p. InstallDependencies (name p) args) (takeWhile ?ok (?T b) @ [y]),
         Some (InstallError (name y)))"
      by (simp only: installBatch_closed d) simp
    show ?thesis
      unfolding T tw dw
      by (simp add: b d)
  qed
qed


lemma installBatches_events:
  "ev \<in> set (fst (installBatches e args bs)) \<Longrightarrow> \<exists>n. ev = InstallDependencies n args"
  by (auto simp: installBatches_closed dest: set_takeWhileD in_set_takeD)

lemma getCaches_events:
  "ev \<in> set (snd (getCaches opts e s ps caches)) \<Longrightarrow> \<exists>n. ev = CacheIsValid n"
  by (induction ps arbitrary: caches) (auto simp: Let_def case_prod_beta split: if_splits)

lemma filter_calls_all:
  "\<forall>ev \<in> set evs. P (Call ev) \<Longrightarrow> filter P (map Call evs) = map Call evs"
  by (induction evs) simp_all

lemma filter_calls_none:
  "\<forall>ev \<in> set evs. \<not> P (Call ev) \<Longrightarrow> filter P (map Call evs) = []"
  by (induction evs) simp_all

lemma filter_batches_none:
  "\<forall>us. \<not> P (Batch us) \<Longrightarrow> filter P (map Batch rs) = []"
  by (induction rs) simp_all

text \<open>
  C8. The install phase goes through the projects of the batches one at a time, in the
  order of the batches. It skips every workspace project and every project without
  dependencies, and calls the installer for the others until the first call that fails,
  that one included; the installer is called nowhere else in a run.
\<close>

theorem install_phase_sequential:
  "installBatches e args batches =
     (map (\<lambda>p. InstallDependencies (name p) args)
        (takeWhile (\<lambda>p. install_ok e (name p))
           (filter (\<lambda>p. \<not> isWorkspaceProject p \<and> hasDependencies p) (concat batches)) @
         take 1 (dropWhile (\<lambda>p. install_ok e (name p))
           (filter (\<lambda>p. \<not> isWorkspaceProject p \<and> hasDependencies p) (concat batches)))),
      (case dropWhile (\<lambda>p. install_ok e (name p))
           (filter (\<lambda>p. \<not> isWorkspaceProject p \<and> hasDependencies p) (concat batches)) of
         [] \<Rightarrow> None | p # rest \<Rightarrow> Some (InstallError (name p))))
   \<and> ((\<forall>p \<in> set (concat batches).
          \<not> isWorkspaceProject p \<and> hasDependencies p \<longrightarrow> install_ok e (name p)) \<longrightarrow>
        installBatches e args batches =
          (map (\<lambda>p. InstallDependencies (name p) args)
             (filter (\<lambda>p. \<not> isWorkspaceProject p \<and> hasDependencies p) (concat batches)),
           None))
   \<and> (\<forall>bws bs. topologicallyBatchProjects projects g True = Inr bws \<and>
          topologicallyBatchProjects projects g False = Inr bs \<longrightarrow>
          filter (\<lambda>st. \<exists>n a. st = Call (InstallDependencies n a))
            (trace (run projects g opts e s)) =
          map Call (fst (installBatches e (extraArgs opts) bws)))"
proof -
  let ?I = "\<lambda>st. \<exists>n a. st = Call (InstallDependencies n a)"
  let ?T = "filter (\<lambda>p. \<not> isWorkspaceProject p \<and> hasDependencies p) (concat batches)"
  have all_ok: "installBatches e args batches =
      (map (\<lambda>p. InstallDependencies (name p) args) ?T, None)"
    if ok: "\<forall>p \<in> set (concat batches).
      \<not> isWorkspaceProject p \<and> hasDependencies p \<longrightarrow> install_ok e (name p)"
  proof -
    from ok have "\<forall>p \<in> set ?T. install_ok e (name p)"
      by auto
    note w = while_append_all [where P = "\<lambda>p. install_ok e (name p)", OF this]
    show ?thesis
      by (simp only: installBatches_closed w(3,4)) simp
  qed
  have "filter ?I (trace (run projects g opts e s)) =
      map Call (fst (installBatches e (extraArgs opts) bws))"
    if bws: "topologicallyBatchProjects projects g True = Inr bws"
      and bs: "topologicallyBatchProjects projects g False = Inr bs" for bws bs
  proof (cases projects g opts e s rule: run_cases)
    case (unbatched err)
    with bws bs show ?thesis by auto
  next
    case (stopped bws' bs' ievs ierr post err)
    with bws have i: "fst (installBatches e (extraArgs opts) bws) = ievs"
      by simp
    then have "\<forall>ev \<in> set ievs. ?I (Call ev)"
      using installBatches_events [of _ e "extraArgs opts" bws] by blast
    then have "filter ?I (map Call ievs) = map Call ievs"
      by (rule filter_calls_all)
    moreover from stopped(4) have "\<forall>ev \<in> set post. \<not> ?I (Call ev)"
      by auto
    then have "filter ?I (map Call post) = []"
      by (rule filter_calls_none)
    ultimately show ?thesis
      using stopped(5) i by simp
  next
    case (built bws' bs' ievs rs fs s')
    with bws have i: "fst (installBatches e (extraArgs opts) bws) = ievs"
      by simp
    then have "\<forall>ev \<in> set ievs. ?I (Call ev)"
      using installBatches_events [of _ e "extraArgs opts" bws] by blast
    then have "filter ?I (map Call ievs) = map Call ievs"
      by (rule filter_calls_all)
    moreover have "\<forall>ev \<in> set (snd (getCaches opts e s projects Map.empty)). \<not> ?I (Call ev)"
      using getCaches_events [of _ opts e s projects Map.empty] by auto
    then have "filter ?I (map Call (snd (getCaches opts e s projects Map.empty))) = []"
      by (rule filter_calls_none)
    moreover have "filter ?I (map Batch rs) = []"
      by (rule filter_batches_none) simp
    ultimately show ?thesis
      using built(9) i by simp
  qed
  with all_ok show ?thesis
    by (simp only: installBatches_closed) blast
qed


theorem install_phase_sequential_witness:
  "installBatches ex_env [''--frozen-lockfile''] [ [ex_ws, ex_docs], [ex_core, ex_plugin] ] =
     ([InstallDependencies ''core'' [''--frozen-lockfile''],
       InstallDependencies ''plugin'' [''--frozen-lockfile''] ], None) \<and>
   topologicallyBatchProjects [ex_plugin, ex_core] ex_graph True = Inr [ [ex_core], [ex_plugin] ] \<and>
   topologicallyBatchProjects [ex_plugin, ex_core] ex_graph False = Inr [ [ex_core], [ex_plugin] ] \<and>
   filter (\<lambda>st. \<exists>n a. st = Call (InstallDependencies n a))
     (trace (run [ex_plugin, ex_core] ex_graph ex_opts ex_env Map.empty)) =
     [Call (InstallDependencies ''core'' [''--frozen-lockfile'']),
      Call (InstallDependencies ''plugin'' [''--frozen-lockfile''])]"
proof -
  note t = install_phase_sequential [of ex_env "[''--frozen-lockfile'']"
    "[ [ex_ws, ex_docs], [ex_core, ex_plugin] ]" "[ex_plugin, ex_core]" ex_graph ex_opts Map.empty]
  from t have 1: "installBatches ex_env [''--frozen-lockfile'']
      [ [ex_ws, ex_docs], [ex_core, ex_plugin] ] =
     ([InstallDependencies ''core'' [''--frozen-lockfile''],
       InstallDependencies ''plugin'' [''--frozen-lockfile''] ], None)"
    by (simp add: ex_fields ex_env_def)
  from t ex_batches [of True] ex_batches [of False]
  have "filter (\<lambda>st. \<exists>n a. st = Call (InstallDependencies n a))
     (trace (run [ex_plugin, ex_core] ex_graph ex_opts ex_env Map.empty)) =
     map Call (fst (installBatches ex_env (extraArgs ex_opts) [ [ex_core], [ex_plugin] ]))"
    by blast
  then have 2: "filter (\<lambda>st. \<exists>n a. st = Call (InstallDependencies n a))
     (trace (run [ex_plugin, ex_core] ex_graph ex_opts ex_env Map.empty)) =
     [Call (InstallDependencies ''core'' [''--frozen-lockfile'']),
      Call (InstallDependencies ''plugin'' [''--frozen-lockfile''])]"
    by (simp add: ex_fields ex_env_def ex_opts_def extraArgs_def)
  from 1 2 ex_batches [of True] ex_batches [of False] show ?thesis
    by (intro conjI)
qed

text \<open>
  C4. The steps of a run come in the order of the phases: the install calls, then the
  reading and validation of the lock file, the linking and the checksums, then the cache
  checks, then the batches of the build phase. Each step is taken only after every
  earlier one has succeeded: the lock file is read only after every install call has
  succeeded, and a failed reading, validation (\<^verbatim>\<open>LockValidationError\<close>), linking
  or computation of the checksums ends the run before any cache check or build unit.
  When a cache check or a build unit is there, the lock file has been read and
  validated, the checksums have been computed, and every cache decision has been made
  from the cache records as they were before the build phase; the units follow these
  decisions whatever the records have become.
\<close>

theorem phases_in_order:
  "\<exists>ievs post cevs rs.
     trace (run projects g opts e s) =
       map Call ievs @ map Call post @ map Call cevs @ map Batch rs
   \<and> (\<forall>ev \<in> set ievs. \<exists>n a. ev = InstallDependencies n a)
   \<and> (\<exists>k. post = take k [ReadYarnLock, ValidateDependencies, LinkProjectExecutables,
                          GetAllChecksums])
   \<and> (\<forall>ev \<in> set cevs. \<exists>n. ev = CacheIsValid n)
   \<and> (post \<noteq> [] \<longrightarrow>
        (\<exists>bws. topologicallyBatchProjects projects g True = Inr bws \<and>
               installBatches e (extraArgs opts) bws = (ievs, None)))
   \<and> (ValidateDependencies \<in> set post \<longrightarrow> readYarnLock_ok e)
   \<and> (LinkProjectExecutables \<in> set post \<longrightarrow> validate_ok e)
   \<and> (GetAllChecksums \<in> set post \<longrightarrow> link_ok e)
   \<and> (ReadYarnLock \<in> set post \<and> \<not> readYarnLock_ok e \<longrightarrow>
        outcome (run projects g opts e s) = Failed [LockReadError] \<and>
        cevs = [] \<and> rs = [])
   \<and> (ValidateDependencies \<in> set post \<and> \<not> validate_ok e \<longrightarrow>
        outcome (run projects g opts e s) = Failed [LockValidationError] \<and>
        cevs = [] \<and> rs = [])
   \<and> (LinkProjectExecutables \<in> set post \<and> \<not> link_ok e \<longrightarrow>
        outcome (run projects g opts e s) = Failed [LinkError] \<and>
        cevs = [] \<and> rs = [])
   \<and> (GetAllChecksums \<in> set post \<and> \<not> checksums_ok e \<longrightarrow>
        outcome (run projects g opts e s) = Failed [ChecksumError] \<and>
        cevs = [] \<and> rs = [])
   \<and> (GetAllChecksums \<in> set post \<and> checksums_ok e \<longrightarrow>
        cevs = snd (getCaches opts e s projects Map.empty))
   \<and> (cevs \<noteq> [] \<or> rs \<noteq> [] \<longrightarrow>
        post = [ReadYarnLock, ValidateDependencies, LinkProjectExecutables, GetAllChecksums] \<and>
        readYarnLock_ok e \<and> validate_ok e \<and> link_ok e \<and> checksums_ok e \<and>
        cevs = snd (getCaches opts e s projects Map.empty) \<and>
        (\<forall>us \<in> set rs. \<forall>u \<in> set us. \<forall>st.
           snd u = fst (bootstrapUnit e (decisions opts e s projects) (fst u) st)))"
proof (cases projects g opts e s rule: run_cases)
  case (unbatched err)
  have "take 0 [ReadYarnLock, ValidateDependencies, LinkProjectExecutables, GetAllChecksums] = []"
    by simp
  with unbatched(2) show ?thesis
    by (intro exI [of _ "[]"]) simp
next
  case (stopped bws bs ievs ierr post err)
  have iev: "\<forall>ev \<in> set ievs. \<exists>n a. ev = InstallDependencies n a"
    using installBatches_events [of _ e "extraArgs opts" bws] stopped(3) by fastforce
  from stopped(4) have k: "\<exists>k. post =
      take k [ReadYarnLock, ValidateDependencies, LinkProjectExecutables, GetAllChecksums]"
  proof (elim disjE conjE)
    assume "post = []"
    then have "post = take 0 [ReadYarnLock, ValidateDependencies, LinkProjectExecutables,
      GetAllChecksums]" by simp
    then show ?thesis ..
  next
    assume "post = [ReadYarnLock]"
    then have "post = take 1 [ReadYarnLock, ValidateDependencies, LinkProjectExecutables,
      GetAllChecksums]" by simp
    then show ?thesis ..
  next
    assume "post = [ReadYarnLock, ValidateDependencies]"
    then have "post = take 2 [ReadYarnLock, ValidateDependencies, LinkProjectExecutables,
      GetAllChecksums]" by simp
    then show ?thesis ..
  next
    assume "post = [ReadYarnLock, ValidateDependencies, LinkProjectExecutables]"
    then have "post = take 3 [ReadYarnLock, ValidateDependencies, LinkProjectExecutables,
      GetAllChecksums]" by simp
    then show ?thesis ..
  next
    assume "post = [ReadYarnLock, ValidateDependencies, LinkProjectExecutables, GetAllChecksums]"
    then have "post = take 4 [ReadYarnLock, ValidateDependencies, LinkProjectExecutables,
      GetAllChecksums]" by simp
    then show ?thesis ..
  qed
  from stopped(1,3,4) have inst: "post \<noteq> [] \<longrightarrow>
      (\<exists>bws. topologicallyBatchProjects projects g True = Inr bws \<and>
             installBatches e (extraArgs opts) bws = (ievs, None))"
    by auto
  from stopped(4) have rl: "ValidateDependencies \<in> set post \<longrightarrow> readYarnLock_ok e"
    and vl: "LinkProjectExecutables \<in> set post \<longrightarrow> validate_ok e"
    and ll: "GetAllChecksums \<in> set post \<longrightarrow> link_ok e"
    and nc: "\<not> (GetAllChecksums \<in> set post \<and> checksums_ok e)"
    by auto
  from stopped(4,7) have lr: "ReadYarnLock \<in> set post \<and> \<not> readYarnLock_ok e \<longrightarrow>
      outcome (run projects g opts e s) = Failed [LockReadError]"
    and lv: "ValidateDependencies \<in> set post \<and> \<not> validate_ok e \<longrightarrow>
      outcome (run projects g opts e s) = Failed [LockValidationError]"
    and lk: "LinkProjectExecutables \<in> set post \<and> \<not> link_ok e \<longrightarrow>
      outcome (run projects g opts e s) = Failed [LinkError]"
    and lc: "GetAllChecksums \<in> set post \<and> \<not> checksums_ok e \<longrightarrow>
      outcome (run projects g opts e s) = Failed [ChecksumError]"
    by auto
  from stopped(5) have "trace (run projects g opts e s) =
      map Call ievs @ map Call post @ map Call [] @ map Batch []"
    by simp
  with iev k inst rl vl ll nc lr lv lk lc show ?thesis
    by (rule_tac x = ievs in exI, rule_tac x = post in exI, rule_tac x = "[]" in exI,
        rule_tac x = "[]" in exI) (simp; blast)
next
  case (built bws bs ievs rs fs s')
  let ?post = "[ReadYarnLock, ValidateDependencies, LinkProjectExecutables, GetAllChecksums]"
  let ?cevs = "snd (getCaches opts e s projects Map.empty)"
  have iev: "\<forall>ev \<in> set ievs. \<exists>n a. ev = InstallDependencies n a"
    using installBatches_events [of _ e "extraArgs opts" bws] built(3) by fastforce
  have k: "\<exists>k. ?post = take k ?post"
    by (intro exI [of _ 4]) simp
  have cev: "\<forall>ev \<in> set ?cevs. \<exists>n. ev = CacheIsValid n"
    using getCaches_events by blast
  have units: "\<forall>us \<in> set rs. \<forall>u \<in> set us. \<forall>st.
      snd u = fst (bootstrapUnit e (decisions opts e s projects) (fst u) st)"
    using started_unit(3) [OF built(8)] by blast
  from built(1,3) have inst: "\<exists>bws. topologicallyBatchProjects projects g True = Inr bws \<and>
      installBatches e (extraArgs opts) bws = (ievs, None)"
    by blast
  from built(9) iev k cev units inst built(4,5,6,7) show ?thesis
    by (rule_tac x = ievs in exI, rule_tac x = ?post in exI, rule_tac x = ?cevs in exI,
        rule_tac x = rs in exI) simp
qed


lemma ex_run_ok_trace:
  "trace (run [ex_plugin, ex_core] ex_graph ex_opts ex_env Map.empty) =
     [Call (InstallDependencies ''core'' [''--frozen-lockfile'']),
      Call (InstallDependencies ''plugin'' [''--frozen-lockfile'']),
      Call ReadYarnLock, Call ValidateDependencies, Call LinkProjectExecutables,
      Call GetAllChecksums, Call (CacheIsValid ''plugin''), Call (CacheIsValid ''core''),
      Batch [(ex_core, [CacheDelete ''core'', BuildForTargets ''core'' True,
                CacheWrite ''core'' ''core#1''], None)],
      Batch [(ex_plugin, [CacheDelete ''plugin'', RunScriptStreaming ''plugin'' ''osd:bootstrap'',
                CacheWrite ''plugin'' ''plugin#1''], None)] ]"
  by (simp add: run_def ex_batches extraArgs_def ex_opts_def ex_env_def
      ex_fields ex_projects_distinct ex_projects_distinct [symmetric]
      new_BootstrapCacheFile_def file_isValid_def
      file_delete_def file_write_def bootstrapUnit_def failures_def List.map_filter_simps)

lemma ex_run_bad_lock_trace:
  "trace (run [ex_plugin, ex_core] ex_graph ex_opts ex_env_bad_lock Map.empty) =
     [Call (InstallDependencies ''core'' [''--frozen-lockfile'']),
      Call (InstallDependencies ''plugin'' [''--frozen-lockfile'']),
      Call ReadYarnLock, Call ValidateDependencies]"
  by (simp add: run_def ex_batches extraArgs_def ex_opts_def ex_env_def ex_env_bad_lock_def
      ex_fields)

lemma ex_run_bad_checksums_trace:
  "trace (run [ex_plugin, ex_core] ex_graph ex_opts ex_env_bad_checksums Map.empty) =
     [Call (InstallDependencies ''core'' [''--frozen-lockfile'']),
      Call (InstallDependencies ''plugin'' [''--frozen-lockfile'']),
      Call ReadYarnLock, Call ValidateDependencies, Call LinkProjectExecutables,
      Call GetAllChecksums]"
  by (simp add: run_def ex_batches extraArgs_def ex_opts_def ex_env_def
      ex_env_bad_checksums_def ex_fields)

theorem phases_in_order_witness:
  "readYarnLock_ok ex_env \<and> validate_ok ex_env \<and> link_ok ex_env \<and> checksums_ok ex_env \<and>
   (\<exists>ievs cevs rs.
      trace (run [ex_plugin, ex_core] ex_graph ex_opts ex_env Map.empty) =
        map Call ievs @
        map Call [ReadYarnLock, ValidateDependencies, LinkProjectExecutables, GetAllChecksums] @
        map Call cevs @ map Batch rs \<and>
      rs \<noteq> [] \<and>
      installBatches ex_env (extraArgs ex_opts) [ [ex_core], [ex_plugin] ] = (ievs, None) \<and>
      cevs = snd (getCaches ex_opts ex_env Map.empty [ex_plugin, ex_core] Map.empty)) \<and>
   \<not> validate_ok ex_env_bad_lock \<and>
   outcome (run [ex_plugin, ex_core] ex_graph ex_opts ex_env_bad_lock Map.empty) =
     Failed [LockValidationError] \<and>
   \<not> checksums_ok ex_env_bad_checksums \<and>
   outcome (run [ex_plugin, ex_core] ex_graph ex_opts ex_env_bad_checksums Map.empty) =
     Failed [ChecksumError] \<and>
   \<not> (\<exists>us. Batch us
        \<in> set (trace (run [ex_plugin, ex_core] ex_graph ex_opts ex_env_bad_checksums Map.empty)))"
proof -
  let ?ps = "[ex_plugin, ex_core]"
  let ?post = "[ReadYarnLock, ValidateDependencies, LinkProjectExecutables, GetAllChecksums]"
  let ?r = "run ?ps ex_graph ex_opts ex_env Map.empty"
  let ?b = "run ?ps ex_graph ex_opts ex_env_bad_lock Map.empty"
  let ?c = "run ?ps ex_graph ex_opts ex_env_bad_checksums Map.empty"
  have v: "readYarnLock_ok ex_env \<and> validate_ok ex_env \<and> link_ok ex_env \<and> checksums_ok ex_env"
    and nv: "\<not> validate_ok ex_env_bad_lock" and nc: "\<not> checksums_ok ex_env_bad_checksums"
    by (simp_all add: ex_env_def ex_env_bad_lock_def ex_env_bad_checksums_def)
  from phases_in_order [of ?ps ex_graph ex_opts ex_env Map.empty]
  have ok: "\<exists>ievs cevs rs.
      trace ?r = map Call ievs @ map Call ?post @ map Call cevs @ map Batch rs \<and> rs \<noteq> [] \<and>
      installBatches ex_env (extraArgs ex_opts) [ [ex_core], [ex_plugin] ] = (ievs, None) \<and>
      cevs = snd (getCaches ex_opts ex_env Map.empty ?ps Map.empty)"
  proof (elim exE conjE)
    fix ievs post cevs rs
    assume tr: "trace ?r = map Call ievs @ map Call post @ map Call cevs @ map Batch rs"
      and inst: "post \<noteq> [] \<longrightarrow>
        (\<exists>bws. topologicallyBatchProjects ?ps ex_graph True = Inr bws \<and>
               installBatches ex_env (extraArgs ex_opts) bws = (ievs, None))"
      and built: "cevs \<noteq> [] \<or> rs \<noteq> [] \<longrightarrow> post = ?post \<and>
        readYarnLock_ok ex_env \<and> validate_ok ex_env \<and> link_ok ex_env \<and> checksums_ok ex_env \<and>
        cevs = snd (getCaches ex_opts ex_env Map.empty ?ps Map.empty) \<and>
        (\<forall>us \<in> set rs. \<forall>u \<in> set us. \<forall>st.
           snd u = fst (bootstrapUnit ex_env (decisions ex_opts ex_env Map.empty ?ps) (fst u) st))"
    have "Batch [(ex_core, [CacheDelete ''core'', BuildForTargets ''core'' True,
        CacheWrite ''core'' ''core#1''], None)] \<in> set (trace ?r)"
      by (simp add: ex_run_ok_trace)
    with tr have rs: "rs \<noteq> []"
      by auto
    with built have post: "post = ?post"
      and cevs: "cevs = snd (getCaches ex_opts ex_env Map.empty ?ps Map.empty)"
      by simp_all
    from post have "post \<noteq> []"
      by simp
    with inst obtain bws where "topologicallyBatchProjects ?ps ex_graph True = Inr bws"
      and "installBatches ex_env (extraArgs ex_opts) bws = (ievs, None)"
      by blast
    with ex_batches [of True]
    have i: "installBatches ex_env (extraArgs ex_opts) [ [ex_core], [ex_plugin] ] = (ievs, None)"
      by simp
    from tr post have "trace ?r =
        map Call ievs @ map Call ?post @ map Call cevs @ map Batch rs"
      by simp
    with rs i cevs show ?thesis
      by blast
  qed
  from phases_in_order [of ?ps ex_graph ex_opts ex_env_bad_lock Map.empty]
  have bad: "outcome ?b = Failed [LockValidationError]"
  proof (elim exE conjE)
    fix ievs post cevs rs
    assume tr: "trace ?b = map Call ievs @ map Call post @ map Call cevs @ map Batch rs"
      and iev: "\<forall>ev \<in> set ievs. \<exists>n a. ev = InstallDependencies n a"
      and cev: "\<forall>ev \<in> set cevs. \<exists>n. ev = CacheIsValid n"
      and lv: "ValidateDependencies \<in> set post \<and> \<not> validate_ok ex_env_bad_lock \<longrightarrow>
        outcome ?b = Failed [LockValidationError] \<and> cevs = [] \<and> rs = []"
    have "Call ValidateDependencies \<in> set (trace ?b)"
      by (simp add: ex_run_bad_lock_trace)
    with tr iev cev have "ValidateDependencies \<in> set post"
      by auto
    with lv nv show ?thesis
      by simp
  qed
  from phases_in_order [of ?ps ex_graph ex_opts ex_env_bad_checksums Map.empty]
  have sum: "outcome ?c = Failed [ChecksumError] \<and> \<not> (\<exists>us. Batch us \<in> set (trace ?c))"
  proof (elim exE conjE)
    fix ievs post cevs rs
    assume tr: "trace ?c = map Call ievs @ map Call post @ map Call cevs @ map Batch rs"
      and iev: "\<forall>ev \<in> set ievs. \<exists>n a. ev = InstallDependencies n a"
      and cev: "\<forall>ev \<in> set cevs. \<exists>n. ev = CacheIsValid n"
      and lc: "GetAllChecksums \<in> set post \<and> \<not> checksums_ok ex_env_bad_checksums \<longrightarrow>
        outcome ?c = Failed [ChecksumError] \<and> cevs = [] \<and> rs = []"
    have "Call GetAllChecksums \<in> set (trace ?c)"
      by (simp add: ex_run_bad_checksums_trace)
    with tr iev cev have "GetAllChecksums \<in> set post"
      by auto
    with lc nc have o: "outcome ?c = Failed [ChecksumError]" and none: "rs = []"
      by simp_all
    from tr none have "\<not> (\<exists>us. Batch us \<in> set (trace ?c))"
      by auto
    with o show ?thesis
      by simp
  qed
  from v ok nv bad nc sum show ?thesis
    by (intro conjI) simp_all
qed

subsection \<open>A second run\<close>

lemma run_ok_unit_record:
  assumes dn: "distinct (map name projects)"
    and us: "Batch us \<in> set (trace (run projects g opts e s))"
    and u: "(p, evs, None) \<in> set us"
    and needs: "hasScript p ''osd:bootstrap'' \<or> hasBuildTargets p"
  shows "records (run projects g opts e s) (name p) = Some (fresh e (name p))"
proof -
  let ?U = "bootstrapUnit e (decisions opts e s projects)"
  note ur = run_unit_record [OF dn us u]
  from ur(1) have p: "p \<in> set projects"
    by simp
  from ur(2) [of s] have res: "fst (?U p s) = (evs, None)"
    by simp
  from ur(3) have rec: "records (run projects g opts e s) (name p) = snd (?U p s) (name p)"
    by simp
  show ?thesis
  proof (cases opts e s projects p rule: unit_decided_cases)
    case skip
    from p needs skip(1) have "s (name p) = Some (fresh e (name p))"
      by (auto simp: decisions_lookup file_isValid_new)
    with rec skip(2) show ?thesis
      by simp
  next
    case (built evs' c)
    with rec show ?thesis
      by simp
  next
    case (failed evs' c)
    with res show ?thesis
      by simp
  qed
qed

lemma run_done:
  assumes "outcome (run projects g opts e s) = Done"
  obtains bs rs pre where "topologicallyBatchProjects projects g False = Inr bs"
    and "parallelizeBatches bs (bootstrapUnit e (decisions opts e s projects)) s =
           (rs, [], records (run projects g opts e s))"
    and "trace (run projects g opts e s) = map Call pre @ map Batch rs"
proof (cases projects g opts e s rule: run_cases)
  case (unbatched err)
  with assms show ?thesis by simp
next
  case (stopped bws bs ievs ierr post err)
  with assms show ?thesis by simp
next
  case (built bws bs ievs rs fs s')
  from assms built(11) have "fs = []"
    by (simp split: if_splits)
  moreover from built(9) have "trace (run projects g opts e s) =
      map Call (ievs @ [ReadYarnLock, ValidateDependencies, LinkProjectExecutables,
        GetAllChecksums] @ snd (getCaches opts e s projects Map.empty)) @ map Batch rs"
    by simp
  ultimately show ?thesis
    using built(2,8,10) that by blast
qed

lemma run_done_units:
  assumes dn: "distinct (map name projects)"
    and fin: "outcome (run projects g opts e s) = Done" and p: "p \<in> set projects"
  shows "\<exists>us evs. Batch us \<in> set (trace (run projects g opts e s)) \<and> (p, evs, None) \<in> set us"
proof -
  from fin obtain bs rs pre where bs: "topologicallyBatchProjects projects g False = Inr bs"
    and pb: "parallelizeBatches bs (bootstrapUnit e (decisions opts e s projects)) s =
      (rs, [], records (run projects g opts e s))"
    and tr: "trace (run projects g opts e s) = map Call pre @ map Batch rs"
    by (rule run_done)
  note sh = parallelizeBatches_shape [OF pb]
  from sh have len: "length rs = length bs" and ok: "\<forall>us \<in> set rs. failures us = []"
    by simp_all
  from sh len have items: "map (map fst) rs = bs"
    by simp
  from batches_of_distinct_names(1) [OF bs dn] p have "p \<in> set (concat bs)"
    by simp
  then obtain b where "b \<in> set bs" "p \<in> set b"
    by auto
  with items obtain us where us: "us \<in> set rs" and "p \<in> set (map fst us)"
    by (metis (no_types, lifting) imageE list.set_map)
  then obtain u where u: "u \<in> set us" "fst u = p"
    by auto
  from ok us u(1) have "snd (snd u) = None"
    by (simp add: failures_empty_iff)
  with u have "(p, fst (snd u), None) \<in> set us"
    by (metis prod.collapse)
  moreover from us tr have "Batch us \<in> set (trace (run projects g opts e s))"
    by simp
  ultimately show ?thesis
    by blast
qed

text \<open>
  C6. Take two runs over projects with distinct names, the second starting from the
  cache records the first one left, with caching enabled and with the same fresh
  fingerprints. Every project with a cache entry whose unit ended without error in the
  first run is decided valid in the second. When the first run ended without failure,
  every project with a cache entry is decided valid, and no unit of the second run makes
  any call: no build targets are built and no script is run.
\<close>

theorem second_run_skips_builds:
  assumes "distinct (map name projects)" and "cache opts2" and "fresh e2 = fresh e1"
  shows "(\<forall>us p evs.
            Batch us \<in> set (trace (run projects g opts1 e1 s0)) \<and> (p, evs, None) \<in> set us \<and>
            (hasScript p ''osd:bootstrap'' \<or> hasBuildTargets p) \<longrightarrow>
            (\<exists>c. decisions opts2 e2 (records (run projects g opts1 e1 s0)) projects p = Some c \<and>
                 valid c))
       \<and> (outcome (run projects g opts1 e1 s0) = Done \<longrightarrow>
            (\<forall>p \<in> set projects. hasScript p ''osd:bootstrap'' \<or> hasBuildTargets p \<longrightarrow>
               (\<exists>c. decisions opts2 e2 (records (run projects g opts1 e1 s0)) projects p = Some c \<and>
                    valid c)) \<and>
            (\<forall>us u.
               Batch us \<in> set (trace (run projects g opts2 e2 (records (run projects g opts1 e1 s0))))
               \<and> u \<in> set us \<longrightarrow> fst (snd u) = []))"
proof -
  let ?r1 = "run projects g opts1 e1 s0"
  let ?s1 = "records ?r1"
  let ?r2 = "run projects g opts2 e2 ?s1"
  let ?D2 = "decisions opts2 e2 ?s1 projects"
  have valid2: "\<exists>c. ?D2 p = Some c \<and> valid c"
    if us: "Batch us \<in> set (trace ?r1)" and u: "(p, evs, None) \<in> set us"
      and needs: "hasScript p ''osd:bootstrap'' \<or> hasBuildTargets p" for us p evs
  proof -
    have "?s1 (name p) = Some (fresh e1 (name p))"
      using assms(1) us u needs by (rule run_ok_unit_record)
    moreover have "p \<in> set projects"
      using run_unit_record(1) [OF assms(1) us u] by simp
    ultimately show ?thesis
      using needs assms(2,3) by (simp add: decisions_lookup file_isValid_new)
  qed
  have all_valid: "\<exists>c. ?D2 p = Some c \<and> valid c"
    if fin: "outcome ?r1 = Done" and p: "p \<in> set projects"
      and needs: "hasScript p ''osd:bootstrap'' \<or> hasBuildTargets p" for p
  proof -
    from run_done_units [OF assms(1) fin p] obtain us evs
      where "Batch us \<in> set (trace ?r1)" "(p, evs, None) \<in> set us"
      by blast
    then show ?thesis
      using needs by (rule valid2)
  qed
  have no_build: "fst (snd u) = []"
    if fin: "outcome ?r1 = Done" and us: "Batch us \<in> set (trace ?r2)" and u: "u \<in> set us"
    for us u
  proof -
    note ur = run_unit_record [OF assms(1) us u]
    have "?D2 (fst u) = None \<or> (\<exists>c. ?D2 (fst u) = Some c \<and> valid c)"
    proof (cases "hasScript (fst u) ''osd:bootstrap'' \<or> hasBuildTargets (fst u)")
      case True
      with all_valid [OF fin ur(1)] show ?thesis
        by blast
    next
      case False
      then show ?thesis
        by (simp add: decisions_lookup)
    qed
    then have "bootstrapUnit e2 ?D2 (fst u) ?s1 = (([], None), ?s1)"
      by (rule unit_skip)
    with ur(2) [of ?s1] show ?thesis
      by simp
  qed
  from valid2 all_valid no_build show ?thesis
    by blast
qed


lemma ex_run_ok_outcome:
  "outcome (run [ex_plugin, ex_core] ex_graph ex_opts ex_env Map.empty) = Done"
  by (simp add: run_def ex_batches extraArgs_def ex_opts_def ex_env_def
      ex_fields ex_projects_distinct ex_projects_distinct [symmetric]
      new_BootstrapCacheFile_def file_isValid_def
      file_delete_def file_write_def bootstrapUnit_def failures_def List.map_filter_simps)

theorem second_run_skips_builds_witness:
  "distinct (map name [ex_plugin, ex_core]) \<and> cache ex_opts \<and>
   fresh ex_env_failing = fresh ex_env \<and>
   outcome (run [ex_plugin, ex_core] ex_graph ex_opts ex_env Map.empty) = Done \<and>
   ex_core \<in> set [ex_plugin, ex_core] \<and> hasBuildTargets ex_core \<and>
   (\<exists>c. decisions ex_opts ex_env_failing
          (records (run [ex_plugin, ex_core] ex_graph ex_opts ex_env Map.empty))
          [ex_plugin, ex_core] ex_core = Some c \<and> valid c) \<and>
   \<not> (\<exists>us u.
        Batch us \<in> set (trace (run [ex_plugin, ex_core] ex_graph ex_opts ex_env_failing
          (records (run [ex_plugin, ex_core] ex_graph ex_opts ex_env Map.empty)))) \<and>
        u \<in> set us \<and> fst (snd u) \<noteq> [])"
proof -
  let ?ps = "[ex_plugin, ex_core]"
  let ?r1 = "run ?ps ex_graph ex_opts ex_env Map.empty"
  have d: "distinct (map name ?ps)" and c: "cache ex_opts"
    and f: "fresh ex_env_failing = fresh ex_env"
    by (simp_all add: ex_fields ex_opts_def ex_env_failing_def)
  have m: "ex_core \<in> set ?ps" and hb: "hasBuildTargets ex_core"
    by (simp_all add: ex_fields)
  note t = second_run_skips_builds [OF d c f, of ex_graph ex_opts Map.empty]
  from t ex_run_ok_outcome m hb
  have 1: "\<exists>c. decisions ex_opts ex_env_failing (records ?r1) ?ps ex_core = Some c \<and> valid c"
    by blast
  from t ex_run_ok_outcome
  have 2: "\<not> (\<exists>us u. Batch us \<in> set (trace (run ?ps ex_graph ex_opts ex_env_failing (records ?r1)))
      \<and> u \<in> set us \<and> fst (snd u) \<noteq> [])"
    by blast
  from d c f ex_run_ok_outcome m hb 1 2 show ?thesis
    by (intro conjI)
qed

subsection \<open>Runs with caching disabled\<close>

text \<open>
  C9. With caching disabled, every project that declares an \<^verbatim>\<open>osd:bootstrap\<close>
  script or build targets is decided stale, whatever its cache record says. Its unit
  deletes the record and runs the build step, and when the step succeeds it writes the
  fresh record. In a run, every unit started for such a project begins with the delete
  and the build step; and when the run ends without failure (over projects with
  distinct names), the run holds a unit of the project that deleted the record, ran the
  build step and wrote the record, and the run leaves the fresh record.
\<close>

theorem cache_disabled_rebuilds:
  assumes "\<not> cache opts" and "p \<in> set projects"
    and "hasScript p ''osd:bootstrap'' \<or> hasBuildTargets p"
  shows "(\<exists>c. decisions opts e s0 projects p = Some c \<and> \<not> valid c)
       \<and> (hasBuildTargets p \<and> build_ok e (name p) \<longrightarrow>
            bootstrapUnit e (decisions opts e s0 projects) p s =
              (([CacheDelete (name p), BuildForTargets (name p) True,
                 CacheWrite (name p) (fresh e (name p))], None),
               s(name p \<mapsto> fresh e (name p))))
       \<and> (\<not> hasBuildTargets p \<and> script_ok e (name p) \<longrightarrow>
            bootstrapUnit e (decisions opts e s0 projects) p s =
              (([CacheDelete (name p), RunScriptStreaming (name p) ''osd:bootstrap'',
                 CacheWrite (name p) (fresh e (name p))], None),
               s(name p \<mapsto> fresh e (name p))))
       \<and> (hasBuildTargets p \<and> \<not> build_ok e (name p) \<longrightarrow>
            fst (bootstrapUnit e (decisions opts e s0 projects) p s) =
              ([CacheDelete (name p), BuildForTargets (name p) True],
               Some (BuildError (name p))))
       \<and> (\<not> hasBuildTargets p \<and> \<not> script_ok e (name p) \<longrightarrow>
            fst (bootstrapUnit e (decisions opts e s0 projects) p s) =
              ([CacheDelete (name p), RunScriptStreaming (name p) ''osd:bootstrap''],
               Some (BuildError (name p))))
       \<and> (\<forall>us evs err.
             Batch us \<in> set (trace (run projects g opts e s0)) \<and> (p, evs, err) \<in> set us \<longrightarrow>
             (evs, err) = fst (bootstrapUnit e (decisions opts e s0 projects) p s) \<and>
             take 2 evs =
               [CacheDelete (name p),
                if hasBuildTargets p then BuildForTargets (name p) True
                else RunScriptStreaming (name p) ''osd:bootstrap''])
       \<and> (distinct (map name projects) \<and> outcome (run projects g opts e s0) = Done \<longrightarrow>
            (\<exists>us. Batch us \<in> set (trace (run projects g opts e s0)) \<and>
                  (p, [CacheDelete (name p),
                       if hasBuildTargets p then BuildForTargets (name p) True
                       else RunScriptStreaming (name p) ''osd:bootstrap'',
                       CacheWrite (name p) (fresh e (name p))], None) \<in> set us) \<and>
            records (run projects g opts e s0) (name p) = Some (fresh e (name p)))"
proof -
  let ?D = "decisions opts e s0 projects"
  let ?r = "run projects g opts e s0"
  let ?step = "if hasBuildTargets p then BuildForTargets (name p) True
    else RunScriptStreaming (name p) ''osd:bootstrap''"
  from assms obtain c where c: "?D p = Some c" "\<not> valid c"
    by (simp add: decisions_lookup)
  note u = unit_stale_decided [OF c]
  have 1: "\<exists>c. ?D p = Some c \<and> \<not> valid c"
    using c by blast
  have 2: "hasBuildTargets p \<and> build_ok e (name p) \<longrightarrow>
      bootstrapUnit e ?D p s =
        (([CacheDelete (name p), BuildForTargets (name p) True,
           CacheWrite (name p) (fresh e (name p))], None),
         s(name p \<mapsto> fresh e (name p)))"
    by (simp add: u)
  have 3: "\<not> hasBuildTargets p \<and> script_ok e (name p) \<longrightarrow>
      bootstrapUnit e ?D p s =
        (([CacheDelete (name p), RunScriptStreaming (name p) ''osd:bootstrap'',
           CacheWrite (name p) (fresh e (name p))], None),
         s(name p \<mapsto> fresh e (name p)))"
    by (simp add: u)
  have 4: "hasBuildTargets p \<and> \<not> build_ok e (name p) \<longrightarrow>
      fst (bootstrapUnit e ?D p s) =
        ([CacheDelete (name p), BuildForTargets (name p) True], Some (BuildError (name p)))"
    by (simp add: u)
  have 5: "\<not> hasBuildTargets p \<and> \<not> script_ok e (name p) \<longrightarrow>
      fst (bootstrapUnit e ?D p s) =
        ([CacheDelete (name p), RunScriptStreaming (name p) ''osd:bootstrap''],
         Some (BuildError (name p)))"
    by (simp add: u)
  have unit_of_run: "(evs, err) = fst (bootstrapUnit e ?D p st)"
    if "Batch us \<in> set (trace ?r)" and "(p, evs, err) \<in> set us" for us evs err st
  proof -
    from that(1) obtain bs rs fs pre
      where pb: "parallelizeBatches bs (bootstrapUnit e ?D) s0 = (rs, fs, records ?r)"
        and us: "us \<in> set rs"
      by (rule run_build_phase)
    from started_unit(3) [OF pb us that(2), of st] show ?thesis
      by simp
  qed
  have prefix: "take 2 evs = [CacheDelete (name p), ?step]"
    if "(evs, err) = fst (bootstrapUnit e ?D p s)" for evs err
    using that by (simp add: u split: if_splits)
  have 6: "\<forall>us evs err. Batch us \<in> set (trace ?r) \<and> (p, evs, err) \<in> set us \<longrightarrow>
      (evs, err) = fst (bootstrapUnit e ?D p s) \<and> take 2 evs = [CacheDelete (name p), ?step]"
    using unit_of_run prefix by blast
  have 7: "(\<exists>us. Batch us \<in> set (trace ?r) \<and>
        (p, [CacheDelete (name p), ?step, CacheWrite (name p) (fresh e (name p))], None)
          \<in> set us) \<and>
      records ?r (name p) = Some (fresh e (name p))"
    if dn: "distinct (map name projects)" and fin: "outcome ?r = Done"
  proof -
    from run_done_units [OF dn fin assms(2)] obtain us evs
      where us: "Batch us \<in> set (trace ?r)" and m: "(p, evs, None) \<in> set us"
      by blast
    from unit_of_run [OF us m, of s] have "fst (bootstrapUnit e ?D p s) = (evs, None)"
      by simp
    then have "evs = [CacheDelete (name p), ?step, CacheWrite (name p) (fresh e (name p))]"
      by (simp add: u split: if_splits)
    with us m have "\<exists>us. Batch us \<in> set (trace ?r) \<and>
        (p, [CacheDelete (name p), ?step, CacheWrite (name p) (fresh e (name p))], None)
          \<in> set us"
      by blast
    moreover have "records ?r (name p) = Some (fresh e (name p))"
      using dn us m assms(3) by (rule run_ok_unit_record)
    ultimately show ?thesis
      by (rule conjI)
  qed
  then have 8: "distinct (map name projects) \<and> outcome ?r = Done \<longrightarrow>
      (\<exists>us. Batch us \<in> set (trace ?r) \<and>
        (p, [CacheDelete (name p), ?step, CacheWrite (name p) (fresh e (name p))], None)
          \<in> set us) \<and>
      records ?r (name p) = Some (fresh e (name p))"
    by blast
  from 1 2 3 4 5 6 8 show ?thesis
    by (intro conjI)
qed

lemma ex_run_nocache_outcome:
  "outcome (run [ex_plugin, ex_core] ex_graph ex_opts_nocache ex_env ex_records) = Done"
  by (simp add: run_def ex_batches extraArgs_def ex_opts_def ex_opts_nocache_def ex_env_def
      ex_fields ex_projects_distinct ex_projects_distinct [symmetric]
      new_BootstrapCacheFile_def file_isValid_def
      file_delete_def file_write_def bootstrapUnit_def failures_def List.map_filter_simps)

theorem cache_disabled_rebuilds_witness:
  "\<not> cache ex_opts_nocache \<and> ex_plugin \<in> set [ex_plugin, ex_core] \<and>
   hasScript ex_plugin ''osd:bootstrap'' \<and> \<not> hasBuildTargets ex_plugin \<and>
   script_ok ex_env (name ex_plugin) \<and>
   ex_records (name ex_plugin) = Some (fresh ex_env (name ex_plugin)) \<and>
   (\<exists>c. decisions ex_opts_nocache ex_env ex_records [ex_plugin, ex_core] ex_plugin = Some c \<and>
        \<not> valid c) \<and>
   bootstrapUnit ex_env (decisions ex_opts_nocache ex_env ex_records [ex_plugin, ex_core])
       ex_plugin ex_records =
     (([CacheDelete (name ex_plugin), RunScriptStreaming (name ex_plugin) ''osd:bootstrap'',
        CacheWrite (name ex_plugin) (fresh ex_env (name ex_plugin))], None),
      ex_records(name ex_plugin \<mapsto> fresh ex_env (name ex_plugin))) \<and>
   distinct (map name [ex_plugin, ex_core]) \<and>
   outcome (run [ex_plugin, ex_core] ex_graph ex_opts_nocache ex_env ex_records) = Done \<and>
   (\<exists>us. Batch us
          \<in> set (trace (run [ex_plugin, ex_core] ex_graph ex_opts_nocache ex_env ex_records)) \<and>
        (ex_plugin,
         [CacheDelete ''plugin'', RunScriptStreaming ''plugin'' ''osd:bootstrap'',
          CacheWrite ''plugin'' ''plugin#1''], None) \<in> set us) \<and>
   records (run [ex_plugin, ex_core] ex_graph ex_opts_nocache ex_env ex_records) ''plugin'' =
     Some ''plugin#1''"
proof -
  let ?ps = "[ex_plugin, ex_core]"
  let ?r = "run ?ps ex_graph ex_opts_nocache ex_env ex_records"
  have nc: "\<not> cache ex_opts_nocache"
    by (simp add: ex_opts_nocache_def)
  have m: "ex_plugin \<in> set ?ps"
    by simp
  have hs: "hasScript ex_plugin ''osd:bootstrap''"
    by (simp add: ex_fields)
  then have h: "hasScript ex_plugin ''osd:bootstrap'' \<or> hasBuildTargets ex_plugin"
    by (rule disjI1)
  have nb: "\<not> hasBuildTargets ex_plugin" and ok: "script_ok ex_env (name ex_plugin)"
    by (simp_all add: ex_fields ex_env_def)
  have up: "ex_records (name ex_plugin) = Some (fresh ex_env (name ex_plugin))"
    by (simp add: ex_fields ex_env_def ex_records_def)
  have d: "distinct (map name ?ps)"
    by (simp add: ex_fields)
  have n: "name ex_plugin = ''plugin''" and f: "fresh ex_env ''plugin'' = ''plugin#1''"
    by (simp_all add: ex_fields ex_env_def)
  note t = cache_disabled_rebuilds [OF nc m h, of ex_env ex_records ex_records ex_graph]
  from t have 1: "\<exists>c. decisions ex_opts_nocache ex_env ex_records ?ps ex_plugin = Some c \<and>
      \<not> valid c"
    by (rule conjunct1)
  from t nb ok have 2: "bootstrapUnit ex_env
       (decisions ex_opts_nocache ex_env ex_records ?ps) ex_plugin ex_records =
     (([CacheDelete (name ex_plugin), RunScriptStreaming (name ex_plugin) ''osd:bootstrap'',
        CacheWrite (name ex_plugin) (fresh ex_env (name ex_plugin))], None),
      ex_records(name ex_plugin \<mapsto> fresh ex_env (name ex_plugin)))"
    by blast
  from t d ex_run_nocache_outcome have run_level:
    "(\<exists>us. Batch us \<in> set (trace ?r) \<and>
        (ex_plugin,
         [CacheDelete (name ex_plugin),
          if hasBuildTargets ex_plugin then BuildForTargets (name ex_plugin) True
          else RunScriptStreaming (name ex_plugin) ''osd:bootstrap'',
          CacheWrite (name ex_plugin) (fresh ex_env (name ex_plugin))], None) \<in> set us) \<and>
     records ?r (name ex_plugin) = Some (fresh ex_env (name ex_plugin))"
    by blast
  from run_level nb have 3: "\<exists>us. Batch us \<in> set (trace ?r) \<and>
      (ex_plugin,
       [CacheDelete ''plugin'', RunScriptStreaming ''plugin'' ''osd:bootstrap'',
        CacheWrite ''plugin'' ''plugin#1''], None) \<in> set us"
    by (simp add: n f)
  from run_level have 4: "records ?r ''plugin'' = Some ''plugin#1''"
    by (simp add: n f)
  from nc m hs nb ok up 1 2 d ex_run_nocache_outcome 3 4 show ?thesis
    by (intro conjI)
qed

end
